theory Spec2Isabelle
  imports Complex_Main "HOL-Library.Word" "HOL-Library.Monad_Syntax"
begin

section \<open>Data model\<close>

text \<open>
  The particle-mesh simulator of \<^verbatim>\<open>Simulation.cpp\<close> and the sweep driver of
  \<^verbatim>\<open>NBody_Comparison.cpp\<close>.  A C++ \<^verbatim>\<open>double\<close> is modelled as a \<^typ>\<open>real\<close>:
  arithmetic is exact, and rounding, infinities and NaN are outside the model, except in
  the boundary loops of the integrator, whose steps are rounded.  A C++
  \<^verbatim>\<open>uint\<close> is a 32-bit word whose arithmetic wraps around; \<^verbatim>\<open>size_t\<close> is a 64-bit word.
  An \<^verbatim>\<open>fftw_complex\<close> is the pair of its two components, \<^verbatim>\<open>[0]\<close> the real and
  \<^verbatim>\<open>[1]\<close> the imaginary part.  A \<^verbatim>\<open>double[3]\<close> is a triple.
\<close>

type_synonym u32 = "32 word"
type_synonym size_t = "64 word"
type_synonym fftw_complex = "real \<times> real"
type_synonym vec3 = "real \<times> real \<times> real"

record particle =
  position :: vec3
  velocity :: vec3

record particle_group =
  mass :: real
  particles :: "particle list"

definition get_num_particles :: "particle_group \<Rightarrow> nat" where
  "get_num_particles g = length (particles g)"

record simulation =
  time_max :: real
  time_step :: real
  particle_collection :: particle_group
  box_width :: real
  number_of_cells :: u32
  expansion_factor :: real
  density_buffer :: "fftw_complex list"
  potential_buffer :: "fftw_complex list"
  k_space_buffer :: "fftw_complex list"

text \<open>
  The exceptions of the constructor and its two warnings are values.  A step of the
  simulation returns an \<open>option\<close>: \<open>None\<close> stands for undefined behaviour of the C++
  (an access outside a buffer or a vector, a conversion of an out-of-range \<^verbatim>\<open>double\<close> to
  an integer, an integer division by zero) and for a loop that does not end.
\<close>

datatype exception = Invalid_argument string | Overflow_error string

datatype warning = Contracting_universe | Large_grid

section \<open>Construction\<close>

text \<open>
  \<^verbatim>\<open>Simulation::Simulation\<close>: the checks in the order of the source.  The first component
  of the result is what was written to standard error before the constructor returned or
  threw.  The comparison of the \<^verbatim>\<open>uint\<close> cell count with \<^verbatim>\<open>numeric_limits<int>::max()\<close>
  is unsigned.  The three buffers are allocated with \<^verbatim>\<open>buffer_length\<close> cells, a \<^verbatim>\<open>uint\<close>
  product, and zeroed.
\<close>

definition INT_MAX :: u32 where
  "INT_MAX = 2147483647"

definition Simulation_ctor ::
  "real \<Rightarrow> real \<Rightarrow> particle_group \<Rightarrow> real \<Rightarrow> u32 \<Rightarrow> real
     \<Rightarrow> warning list \<times> (exception + simulation)" where
  "Simulation_ctor t_max t_step collection W num_cells e_factor =
     (if t_max \<le> 0 then ([], Inl (Invalid_argument ''t_max''))
      else if t_step \<le> 0 then ([], Inl (Invalid_argument ''t_step''))
      else if W \<le> 0 then ([], Inl (Invalid_argument ''W''))
      else if e_factor \<le> 0 then ([], Inl (Invalid_argument ''e_factor''))
      else
        let w1 = (if e_factor < 1 then [Contracting_universe] else [])
        in if num_cells > INT_MAX then (w1, Inl (Overflow_error ''num_cells''))
           else
             let w2 = w1 @ (if num_cells > 400 then [Large_grid] else []);
                 buffer_length = num_cells * num_cells * num_cells;
                 zeros = replicate (unat buffer_length) (0, 0)
             in (w2, Inr \<lparr> time_max = t_max, time_step = t_step,
                            particle_collection = collection, box_width = W,
                            number_of_cells = num_cells, expansion_factor = e_factor,
                            density_buffer = zeros, potential_buffer = zeros,
                            k_space_buffer = zeros \<rparr>))"

text \<open>
  The state the steps of the simulation rely on (section 3 of the specification): a
  positive width, a positive cell count, and three buffers of \<open>N\<^sub>c\<^sup>3\<close> cells each.  The
  buffers are allocated with a 32-bit count, so they have \<open>N\<^sub>c\<^sup>3\<close> cells only when
  \<open>N\<^sub>c\<^sup>3\<close> is below \<open>2\<^sup>3\<^sup>2\<close>.
\<close>

definition mesh_invariant :: "simulation \<Rightarrow> bool" where
  "mesh_invariant s \<longleftrightarrow>
     0 < box_width s \<and> number_of_cells s \<noteq> 0 \<and>
     unat (number_of_cells s) ^ 3 < 2 ^ 32 \<and>
     length (density_buffer s) = unat (number_of_cells s) ^ 3 \<and>
     length (potential_buffer s) = unat (number_of_cells s) ^ 3 \<and>
     length (k_space_buffer s) = unat (number_of_cells s) ^ 3"

section \<open>Box expansion\<close>

text \<open>\<^verbatim>\<open>Simulation::box_expansion\<close>: the width is multiplied, every velocity divided.\<close>

definition expand_velocity :: "real \<Rightarrow> particle \<Rightarrow> particle" where
  "expand_velocity a p =
     (case velocity p of (vx, vy, vz) \<Rightarrow> p\<lparr>velocity := (vx / a, vy / a, vz / a)\<rparr>)"

definition box_expansion :: "simulation \<Rightarrow> simulation" where
  "box_expansion s =
     s\<lparr> box_width := box_width s * expansion_factor s,
        particle_collection :=
          (particle_collection s)\<lparr> particles :=
             map (expand_velocity (expansion_factor s)) (particles (particle_collection s)) \<rparr> \<rparr>"

section \<open>The sweep driver\<close>

text \<open>
  \<^verbatim>\<open>main\<close> of \<^verbatim>\<open>NBody_Comparison.cpp\<close>.  A message is its destination rank, its tag and
  the \<^verbatim>\<open>double\<close> it carries; all messages here come from rank 0.  A blocking receive with
  a tag takes the first pending message for the receiver that has this tag, and never
  returns (\<open>None\<close>) when there is none.
\<close>

record message =
  dest :: nat
  tag :: nat
  payload :: real

definition MPI_Recv :: "message list \<Rightarrow> nat \<Rightarrow> nat \<Rightarrow> real option" where
  "MPI_Recv sent rank t =
     (case filter (\<lambda>m. dest m = rank \<and> tag m = t) sent of
        [] \<Rightarrow> None
      | m # _ \<Rightarrow> Some (payload m))"

text \<open>
  Line 43.  With one process the divisor is zero and the quotient is not a real; the
  value is used below for more than one process only.
\<close>

definition expansion_factor_step_of :: "real \<Rightarrow> real \<Rightarrow> nat \<Rightarrow> real" where
  "expansion_factor_step_of minimum_expansion_factor maximum_expansion_factor num_proc =
     (maximum_expansion_factor - minimum_expansion_factor) / (real_of_int (int num_proc - 1))"

text \<open>Lines 47 to 50: for every other rank, the minimum on tag 0, then the step on tag 1.\<close>

definition coordinator_sends :: "real \<Rightarrow> real \<Rightarrow> nat \<Rightarrow> message list" where
  "coordinator_sends minimum_expansion_factor maximum_expansion_factor num_proc =
     concat (map (\<lambda>i.
        [\<lparr> dest = i, tag = 0, payload = minimum_expansion_factor \<rparr>,
         \<lparr> dest = i, tag = 1,
           payload = expansion_factor_step_of minimum_expansion_factor
                       maximum_expansion_factor num_proc \<rparr>]) [1..<num_proc])"

text \<open>
  Line 44, on rank 0.  With one process the step of line 43 is a division by zero, and
  its product with 0 is not a number: \<open>None\<close>.
\<close>

definition coordinator_expansion_factor :: "real \<Rightarrow> real \<Rightarrow> nat \<Rightarrow> real option" where
  "coordinator_expansion_factor minimum_expansion_factor maximum_expansion_factor num_proc =
     (if int num_proc - 1 = 0 then None
      else Some (minimum_expansion_factor +
        real 0 * expansion_factor_step_of minimum_expansion_factor maximum_expansion_factor
                   num_proc))"

text \<open>Line 61: the factor under which rank 0 files the result of rank \<open>i\<close>.\<close>

definition coordinator_label :: "real \<Rightarrow> real \<Rightarrow> nat \<Rightarrow> nat \<Rightarrow> real" where
  "coordinator_label minimum_expansion_factor maximum_expansion_factor num_proc i =
     minimum_expansion_factor +
       real i * expansion_factor_step_of minimum_expansion_factor maximum_expansion_factor num_proc"

text \<open>
  Lines 86 to 89, on rank \<open>process_id > 0\<close>: the variable named for the step is filled from
  tag 0 and the variable named for the minimum from tag 1.
\<close>

definition peer_expansion_factor :: "message list \<Rightarrow> nat \<Rightarrow> real option" where
  "peer_expansion_factor sent process_id =
     do {
       expansion_factor_step \<leftarrow> MPI_Recv sent process_id 0;
       minimum_expansion_factor \<leftarrow> MPI_Recv sent process_id 1;
       Some (minimum_expansion_factor + real process_id * expansion_factor_step)
     }"

section \<open>Loops and memory\<close>

text \<open>
  A \<^verbatim>\<open>for\<close> loop over a list of items whose body may be undefined: the state is threaded
  through the iterations in order.  The loops marked \<^verbatim>\<open>omp parallel for\<close> are modelled in
  sequential order; their iterations write disjoint locations or add atomically.
\<close>

fun for_each :: "('a \<Rightarrow> 's \<Rightarrow> 's option) \<Rightarrow> 'a list \<Rightarrow> 's \<Rightarrow> 's option" where
  "for_each body [] st = Some st"
| "for_each body (x # xs) st =
     (case body x st of None \<Rightarrow> None | Some st' \<Rightarrow> for_each body xs st')"

definition nth_opt :: "'a list \<Rightarrow> nat \<Rightarrow> 'a option" where
  "nth_opt xs i = (if i < length xs then Some (xs ! i) else None)"

definition write_opt :: "'a list \<Rightarrow> nat \<Rightarrow> 'a \<Rightarrow> 'a list option" where
  "write_opt xs i v = (if i < length xs then Some (xs[i := v]) else None)"

text \<open>
  \<^verbatim>\<open>memset(buffer, 0, sizeof(fftw_complex) * n * n * n)\<close>: the byte count is a \<^verbatim>\<open>size_t\<close>
  product, 16 bytes a cell.
\<close>

definition memset_cells :: "u32 \<Rightarrow> nat" where
  "memset_cells n = unat ((16 :: size_t) * ucast n * ucast n * ucast n) div 16"

definition memset_zero :: "fftw_complex list \<Rightarrow> nat \<Rightarrow> fftw_complex list option" where
  "memset_zero buf cells =
     (if cells \<le> length buf then Some (replicate cells (0, 0) @ drop cells buf) else None)"

text \<open>The mesh index convention, in \<^verbatim>\<open>uint\<close> arithmetic as the source computes it.\<close>

definition flat_index :: "u32 \<Rightarrow> u32 \<Rightarrow> u32 \<Rightarrow> u32 \<Rightarrow> u32" where
  "flat_index n i j k = k + n * (j + n * i)"

text \<open>
  \<^verbatim>\<open>uint i = std::floor(p * number_of_cells)\<close>: the conversion of a \<^verbatim>\<open>double\<close> that is
  not in the range of \<^verbatim>\<open>uint\<close> is undefined.
\<close>

definition cell_coordinate :: "real \<Rightarrow> u32 \<Rightarrow> u32 option" where
  "cell_coordinate p n =
     (let f = \<lfloor>p * real (unat n)\<rfloor>
      in if 0 \<le> f \<and> f < 2 ^ 32 then Some (word_of_int f) else None)"

section \<open>Density deposition\<close>

text \<open>\<^verbatim>\<open>Simulation::fill_density_buffer\<close> of the current source: one iteration, then the whole.\<close>

definition single_density :: "simulation \<Rightarrow> real" where
  "single_density s =
     (let cell_width = box_width s / real (unat (number_of_cells s))
      in mass (particle_collection s) / (cell_width * cell_width * cell_width))"

definition deposit :: "simulation \<Rightarrow> particle \<Rightarrow> fftw_complex list \<Rightarrow> fftw_complex list option" where
  "deposit s current_particle buf =
     (case position current_particle of (px, py, pz) \<Rightarrow>
        do {
          i \<leftarrow> cell_coordinate px (number_of_cells s);
          j \<leftarrow> cell_coordinate py (number_of_cells s);
          k \<leftarrow> cell_coordinate pz (number_of_cells s);
          let index = unat (flat_index (number_of_cells s) i j k);
          c \<leftarrow> nth_opt buf index;
          write_opt buf index (fst c + single_density s, snd c)
        })"

definition fill_density_buffer :: "simulation \<Rightarrow> simulation option" where
  "fill_density_buffer s =
     do {
       zeroed \<leftarrow> memset_zero (density_buffer s) (memset_cells (number_of_cells s));
       d \<leftarrow> for_each (deposit s) (particles (particle_collection s)) zeroed;
       Some (s\<lparr>density_buffer := d\<rparr>)
     }"

section \<open>Poisson step\<close>

text \<open>
  FFTW is a library outside the repository.  A plan is modelled by the transform it
  computes, a function from the input array to the value of each output cell; executing
  it reads and writes \<open>N\<^sub>c\<^sup>3\<close> cells and leaves its input as it was.
\<close>

type_synonym transform = "fftw_complex list \<Rightarrow> nat \<Rightarrow> fftw_complex"

definition fftw_execute ::
  "transform \<Rightarrow> u32 \<Rightarrow> fftw_complex list \<Rightarrow> fftw_complex list \<Rightarrow> fftw_complex list option" where
  "fftw_execute plan n inp out =
     (let cells = unat n ^ 3
      in if cells \<le> length inp \<and> cells \<le> length out
         then Some (map (plan (take cells inp)) [0..<cells] @ drop cells out)
         else None)"

definition M_PI :: real where
  "M_PI = pi"

text \<open>
  The body of the scaling loop: the decoding of the index and the sum of squares are
  \<^verbatim>\<open>uint\<close> arithmetic, the cube of the cell count is \<^verbatim>\<open>double\<close> arithmetic.
\<close>

definition norm_factor :: "simulation \<Rightarrow> u32 \<Rightarrow> real option" where
  "norm_factor s index =
     (let n = number_of_cells s
      in if n * n = 0 then None
         else
           let i = index div (n * n);
               j = (index div n) mod n;
               k = index mod n;
               cell_num = real (unat n)
           in Some (- 4 * M_PI * box_width s * box_width s / real (unat (i * i + j * j + k * k))
                     * (1 / (8 * cell_num * cell_num * cell_num))))"

definition scale_cell :: "simulation \<Rightarrow> nat \<Rightarrow> fftw_complex list \<Rightarrow> fftw_complex list option" where
  "scale_cell s index k_space =
     do {
       f \<leftarrow> norm_factor s (of_nat index);
       c \<leftarrow> nth_opt k_space index;
       write_opt k_space index (fst c * f, snd c * f)
     }"

definition fill_potential_buffer ::
  "transform \<Rightarrow> transform \<Rightarrow> simulation \<Rightarrow> simulation option" where
  "fill_potential_buffer forward_plan backward_plan s =
     (let total_size = number_of_cells s * number_of_cells s * number_of_cells s
      in do {
        k0 \<leftarrow> fftw_execute forward_plan (number_of_cells s) (density_buffer s) (k_space_buffer s);
        k1 \<leftarrow> write_opt k0 0 (0, 0);
        k2 \<leftarrow> for_each (scale_cell s) [1..<unat total_size] k1;
        pot \<leftarrow> fftw_execute backward_plan (number_of_cells s) k2 (potential_buffer s);
        Some (s\<lparr>k_space_buffer := k2, potential_buffer := pot\<rparr>)
      })"

section \<open>Gradient\<close>

text \<open>
  The two kinds of wrapping loop of \<^verbatim>\<open>calculate_gradient\<close>.  The loop variables are
  \<^verbatim>\<open>int\<close>, the cell count is \<^verbatim>\<open>uint\<close>: the comparison \<^verbatim>\<open>i_high >= number_of_cells\<close> is
  unsigned, the comparison \<^verbatim>\<open>i_low < 0\<close> is signed, and both updates are \<^verbatim>\<open>uint\<close>
  arithmetic.  With a cell count of 0 the first loop does not end.
\<close>

partial_function (option) wrap_high :: "u32 \<Rightarrow> u32 \<Rightarrow> u32 option" where
  "wrap_high x n = (if n \<le> x then wrap_high (x - n) n else Some x)"

partial_function (option) wrap_low :: "u32 \<Rightarrow> u32 \<Rightarrow> u32 option" where
  "wrap_low x n = (if sint x < 0 then wrap_low (x + n) n else Some x)"

definition read_re :: "fftw_complex list \<Rightarrow> u32 \<Rightarrow> real option" where
  "read_re buf index = map_option fst (nth_opt buf (unat index))"

definition gradient_cell :: "simulation \<Rightarrow> fftw_complex list \<Rightarrow> u32 \<Rightarrow> u32 \<Rightarrow> u32 \<Rightarrow> vec3 option" where
  "gradient_cell s potential i j k =
     (let n = number_of_cells s;
          cell_width = box_width s / real (unat n)
      in do {
        i_high \<leftarrow> wrap_high (i + 1) n;
        i_low \<leftarrow> wrap_low (i - 1) n;
        j_high \<leftarrow> wrap_high (j + 1) n;
        j_low \<leftarrow> wrap_low (j - 1) n;
        k_high \<leftarrow> wrap_high (k + 1) n;
        k_low \<leftarrow> wrap_low (k - 1) n;
        x_high \<leftarrow> read_re potential (flat_index n i_high j k);
        x_low \<leftarrow> read_re potential (flat_index n i_low j k);
        y_high \<leftarrow> read_re potential (flat_index n i j_high k);
        y_low \<leftarrow> read_re potential (flat_index n i j_low k);
        z_high \<leftarrow> read_re potential (flat_index n i j k_high);
        z_low \<leftarrow> read_re potential (flat_index n i j k_low);
        Some ((x_high - x_low) / (2 * cell_width),
              (y_high - y_low) / (2 * cell_width),
              (z_high - z_low) / (2 * cell_width))
      })"

text \<open>
  The three nested loops fill the cell \<open>(i, j, k)\<close> of a vector of vectors of vectors,
  each of \<open>N\<^sub>c\<close> entries.
\<close>

definition calculate_gradient :: "simulation \<Rightarrow> fftw_complex list \<Rightarrow> vec3 list list list option" where
  "calculate_gradient s potential =
     (let cells = [0..<unat (number_of_cells s)]
      in those (map (\<lambda>i.
           those (map (\<lambda>j.
             those (map (\<lambda>k. gradient_cell s potential (of_nat i) (of_nat j) (of_nat k))
                        cells)) cells)) cells))"

section \<open>Integrator\<close>

text \<open>
  The boundary loops of \<^verbatim>\<open>update_particles\<close> add or subtract 1 until the coordinate is in
  range.  Whether they end depends on the rounding of \<open>p + 1\<close> and \<open>p - 1\<close>: both leave a
  \<^verbatim>\<open>double\<close> that is large enough unchanged.  So these two operations are taken with their
  rounding, to the nearest \<^verbatim>\<open>double\<close> with ties to the even significand (53 significant
  bits, least exponent \<open>- 1022\<close>); infinities are outside the model.
\<close>

definition round_to_even :: "real \<Rightarrow> int" where
  "round_to_even y =
     (let f = \<lfloor>y\<rfloor>; r = y - of_int f
      in if r < 1 / 2 then f else if 1 / 2 < r then f + 1 else if even f then f else f + 1)"

definition exponent :: "real \<Rightarrow> int" where
  "exponent y = max \<lfloor>log 2 \<bar>y\<bar>\<rfloor> (- 1022)"

definition ulp :: "real \<Rightarrow> real" where
  "ulp y = 2 powr (of_int (exponent y - 52))"

definition round_double :: "real \<Rightarrow> real" where
  "round_double y = (if y = 0 then 0 else of_int (round_to_even (y / ulp y)) * ulp y)"

text \<open>
  The two boundary loops, on one coordinate.  A loop that never ends has the value
  \<^term>\<open>None\<close>.
\<close>

partial_function (option) wrap_below :: "real \<Rightarrow> real option" where
  "wrap_below x = (if x < 0 then wrap_below (round_double (x + 1)) else Some x)"

partial_function (option) wrap_above :: "real \<Rightarrow> real option" where
  "wrap_above x = (if x \<ge> 1 then wrap_above (round_double (x - 1)) else Some x)"

definition boundary :: "real \<Rightarrow> real option" where
  "boundary x = do { y \<leftarrow> wrap_below x; wrap_above y }"

text \<open>
  One iteration of the particle loop of \<^verbatim>\<open>update_particles\<close>, then the whole step.  It has
  no result when an index is outside the gradient, a conversion to \<^verbatim>\<open>uint\<close> is out of
  range, or a boundary loop never ends.
\<close>

definition lookup3 :: "'a list list list \<Rightarrow> u32 \<Rightarrow> u32 \<Rightarrow> u32 \<Rightarrow> 'a option" where
  "lookup3 g i j k =
     do {
       plane \<leftarrow> nth_opt g (unat i);
       row \<leftarrow> nth_opt plane (unat j);
       nth_opt row (unat k)
     }"

definition update_particle :: "simulation \<Rightarrow> vec3 list list list \<Rightarrow> particle \<Rightarrow> particle option" where
  "update_particle s gradient current_particle =
     (case position current_particle of (px, py, pz) \<Rightarrow>
      case velocity current_particle of (vx, vy, vz) \<Rightarrow>
        do {
          i \<leftarrow> cell_coordinate px (number_of_cells s);
          j \<leftarrow> cell_coordinate py (number_of_cells s);
          k \<leftarrow> cell_coordinate pz (number_of_cells s);
          g \<leftarrow> lookup3 gradient i j k;
          (case g of (gx, gy, gz) \<Rightarrow>
             let vx' = vx + - 1 * gx * time_step s;
                 vy' = vy + - 1 * gy * time_step s;
                 vz' = vz + - 1 * gz * time_step s;
                 px' = px + vx' * time_step s;
                 py' = py + vy' * time_step s;
                 pz' = pz + vz' * time_step s
             in do {
                  bx \<leftarrow> boundary px';
                  by \<leftarrow> boundary py';
                  bz \<leftarrow> boundary pz';
                  Some \<lparr> position = (bx, by, bz), velocity = (vx', vy', vz') \<rparr>
                })
        })"

definition update_particles :: "simulation \<Rightarrow> simulation option" where
  "update_particles s =
     do {
       gradient \<leftarrow> calculate_gradient s (potential_buffer s);
       ps \<leftarrow> those (map (update_particle s gradient) (particles (particle_collection s)));
       Some (s\<lparr>particle_collection := (particle_collection s)\<lparr>particles := ps\<rparr>\<rparr>)
     }"

section \<open>Density deposition by counting\<close>

text \<open>
  \<^verbatim>\<open>Simulation::bin_particles\<close> and \<^verbatim>\<open>Simulation::fill_density_buffer\<close> of
  \<^verbatim>\<open>src/lib/Simulation.cpp\<close>.  The counts are \<^verbatim>\<open>uint\<close>; a \<^verbatim>\<open>double\<close> used as a vector
  index is converted to \<^verbatim>\<open>size_t\<close>.  The buffer is not zeroed first, and only the real
  part of each cell is assigned.
\<close>

definition vector_index :: "real \<Rightarrow> u32 \<Rightarrow> nat option" where
  "vector_index p n =
     (let f = \<lfloor>p * real (unat n)\<rfloor>
      in if 0 \<le> f \<and> f < 2 ^ 64 then Some (nat f) else None)"

definition bin_particle :: "u32 \<Rightarrow> particle \<Rightarrow> u32 list list list \<Rightarrow> u32 list list list option" where
  "bin_particle n current_particle counts =
     (case position current_particle of (px, py, pz) \<Rightarrow>
        do {
          i \<leftarrow> vector_index px n;
          j \<leftarrow> vector_index py n;
          k \<leftarrow> vector_index pz n;
          plane \<leftarrow> nth_opt counts i;
          row \<leftarrow> nth_opt plane j;
          c \<leftarrow> nth_opt row k;
          Some (counts[i := plane[j := row[k := c + 1]]])
        })"

definition bin_particles :: "simulation \<Rightarrow> u32 list list list option" where
  "bin_particles s =
     (let n = unat (number_of_cells s)
      in for_each (bin_particle (number_of_cells s)) (particles (particle_collection s))
           (replicate n (replicate n (replicate n 0))))"

definition write_density ::
  "simulation \<Rightarrow> u32 list list list \<Rightarrow> nat \<Rightarrow> nat \<Rightarrow> nat \<Rightarrow> fftw_complex list
     \<Rightarrow> fftw_complex list option" where
  "write_density s counts i j k buf =
     (let index = unat (flat_index (number_of_cells s) (of_nat i) (of_nat j) (of_nat k));
          cell_width = box_width s / real (unat (number_of_cells s))
      in do {
        c \<leftarrow> lookup3 counts (of_nat i) (of_nat j) (of_nat k);
        old \<leftarrow> nth_opt buf index;
        write_opt buf index
          (real (unat c) * mass (particle_collection s) / (cell_width * cell_width * cell_width),
           snd old)
      })"

definition fill_density_buffer_binned :: "simulation \<Rightarrow> simulation option" where
  "fill_density_buffer_binned s =
     (let cells = [0..<unat (number_of_cells s)]
      in do {
        counts \<leftarrow> bin_particles s;
        d \<leftarrow> for_each (\<lambda>i.
               for_each (\<lambda>j.
                 for_each (\<lambda>k. write_density s counts i j k) cells) cells) cells
               (density_buffer s);
        Some (s\<lparr>density_buffer := d\<rparr>)
      })"

section \<open>The driver loop\<close>

text \<open>
  One iteration of the loop of \<^verbatim>\<open>Simulation::run\<close>, without the snapshot, which does not
  change the state.
\<close>

definition run_iteration :: "transform \<Rightarrow> transform \<Rightarrow> simulation \<Rightarrow> simulation option" where
  "run_iteration forward_plan backward_plan s =
     do {
       s1 \<leftarrow> fill_density_buffer s;
       s2 \<leftarrow> fill_potential_buffer forward_plan backward_plan s1;
       s3 \<leftarrow> update_particles s2;
       Some (box_expansion s3)
     }"

section \<open>Notions for the results\<close>

text \<open>Positions in unit-box coordinates.\<close>

definition in_unit_interval :: "real \<Rightarrow> bool" where
  "in_unit_interval x \<longleftrightarrow> 0 \<le> x \<and> x < 1"

definition in_unit_box :: "particle \<Rightarrow> bool" where
  "in_unit_box p \<longleftrightarrow>
     (case position p of (px, py, pz) \<Rightarrow>
        in_unit_interval px \<and> in_unit_interval py \<and> in_unit_interval pz)"

text \<open>A simulation of two particles on a mesh of \<open>2\<^sup>3\<close> cells, to run the steps on.\<close>

definition sim0 :: simulation where
  "sim0 = \<lparr> time_max = 1, time_step = 1 / 100,
      particle_collection = \<lparr> mass = 3,
         particles = [\<lparr> position = (1 / 4, 3 / 4, 1 / 2), velocity = (0, 0, 0) \<rparr>,
                      \<lparr> position = (0, 1 / 8, 7 / 8), velocity = (1, - 2, 0) \<rparr>] \<rparr>,
      box_width = 10, number_of_cells = 2, expansion_factor = 51 / 50,
      density_buffer = replicate 8 (0, 0),
      potential_buffer = replicate 8 (0, 0),
      k_space_buffer = replicate 8 (0, 0) \<rparr>"

text \<open>
  A simulation without particles on a mesh of \<open>3\<^sup>3\<close> cells; the real part of the
  potential at the cell with flat index \<open>m\<close> is \<open>m\<close>.
\<close>

definition sim3 :: simulation where
  "sim3 = \<lparr> time_max = 1, time_step = 1 / 100,
      particle_collection = \<lparr> mass = 1, particles = [] \<rparr>,
      box_width = 10, number_of_cells = 3, expansion_factor = 1,
      density_buffer = replicate 27 (1, 0),
      potential_buffer = map (\<lambda>m. (real m, 0)) [0..<27],
      k_space_buffer = replicate 27 (0, 0) \<rparr>"

text \<open>A transform that copies its input, to run the Poisson step on.\<close>

definition copy_plan :: transform where
  "copy_plan inp m = inp ! m"

text \<open>The simulation that the constructor returns for 0 cells and one particle.\<close>

definition sim_no_cells :: simulation where
  "sim_no_cells = \<lparr> time_max = 1, time_step = 1,
      particle_collection = \<lparr> mass = 1,
         particles = [\<lparr> position = (1 / 2, 0, 0), velocity = (0, 0, 0) \<rparr>] \<rparr>,
      box_width = 1, number_of_cells = 0, expansion_factor = 1,
      density_buffer = [], potential_buffer = [], k_space_buffer = [] \<rparr>"

text \<open>
  The simulation that the constructor returns for 1626 cells and one particle at
  \<open>(1/2, 0, 0)\<close>: \<open>1626\<^sup>3 mod 2\<^sup>3\<^sup>2 = 3975080\<close>.
\<close>

definition sim1626 :: simulation where
  "sim1626 = \<lparr> time_max = 1, time_step = 1 / 100,
      particle_collection = \<lparr> mass = 1,
         particles = [\<lparr> position = (1 / 2, 0, 0), velocity = (0, 0, 0) \<rparr>] \<rparr>,
      box_width = 100, number_of_cells = 1626, expansion_factor = 1,
      density_buffer = replicate 3975080 (0, 0),
      potential_buffer = replicate 3975080 (0, 0),
      k_space_buffer = replicate 3975080 (0, 0) \<rparr>"

text \<open>
  The mesh index convention of the specification on natural numbers, and the cell a
  particle belongs to by nearest-grid-point assignment.
\<close>

definition idx :: "nat \<Rightarrow> nat \<Rightarrow> nat \<Rightarrow> nat \<Rightarrow> nat" where
  "idx N i j k = k + N * (j + N * i)"

definition cell_number :: "u32 \<Rightarrow> real \<Rightarrow> nat" where
  "cell_number n p = nat \<lfloor>p * real (unat n)\<rfloor>"

definition target_cell :: "u32 \<Rightarrow> particle \<Rightarrow> nat" where
  "target_cell n p =
     (case position p of (px, py, pz) \<Rightarrow>
        idx (unat n) (cell_number n px) (cell_number n py) (cell_number n pz))"

text \<open>
  The factor \<open>G(i, j, k)\<close> of section 4.2 of the specification for the cell with flat
  index \<open>m\<close>, with \<open>(i, j, k)\<close> decoded from \<open>m\<close> by the mesh index convention.
\<close>

definition greens_factor :: "real \<Rightarrow> nat \<Rightarrow> nat \<Rightarrow> real" where
  "greens_factor W N m =
     - 4 * pi * W\<^sup>2
       / real ((m div N\<^sup>2)\<^sup>2 + ((m div N) mod N)\<^sup>2 + (m mod N)\<^sup>2)
       * (1 / (8 * real N ^ 3))"

text \<open>The real part of the potential at the cell \<open>(i, j, k)\<close>.\<close>

definition phi :: "fftw_complex list \<Rightarrow> nat \<Rightarrow> nat \<Rightarrow> nat \<Rightarrow> nat \<Rightarrow> real" where
  "phi potential N i j k = fst (potential ! idx N i j k)"

text \<open>
  The central difference of section 4.3 of the specification at the cell \<open>(i, j, k)\<close>,
  with neighbours taken modulo \<open>N\<close>; \<open>(i + N - 1) mod N\<close> is \<open>(i - 1) mod N\<close>.
\<close>

definition central_difference :: "fftw_complex list \<Rightarrow> real \<Rightarrow> nat \<Rightarrow> nat \<Rightarrow> nat \<Rightarrow> nat \<Rightarrow> vec3" where
  "central_difference potential W N i j k =
     ((phi potential N (Suc i mod N) j k - phi potential N ((i + N - 1) mod N) j k)
        / (2 * (W / real N)),
      (phi potential N i (Suc j mod N) k - phi potential N i ((j + N - 1) mod N) k)
        / (2 * (W / real N)),
      (phi potential N i j (Suc k mod N) - phi potential N i j ((k + N - 1) mod N))
        / (2 * (W / real N)))"





text \<open>
  A particle whose nearest grid point is \<open>(i, j, k)\<close>, and a vector of vectors of
  vectors with \<open>N\<close> entries at each level.
\<close>

definition in_cell :: "u32 \<Rightarrow> nat \<Rightarrow> nat \<Rightarrow> nat \<Rightarrow> particle \<Rightarrow> bool" where
  "in_cell n i j k p \<longleftrightarrow>
     (case position p of (px, py, pz) \<Rightarrow>
        cell_number n px = i \<and> cell_number n py = j \<and> cell_number n pz = k)"

definition cubic :: "nat \<Rightarrow> 'a list list list \<Rightarrow> bool" where
  "cubic N c \<longleftrightarrow>
     length c = N \<and> (\<forall>i<N. length (c ! i) = N \<and> (\<forall>j<N. length (c ! i ! j) = N))"

section \<open>Cell coordinates and flat indices\<close>

lemma unat_cells_less:
  assumes "unat (n::u32) ^ 3 < 2 ^ 32" "n \<noteq> 0"
  shows "unat n * unat n < 2 ^ 32" and "unat n < 2^32"
proof -
  have pos: "1 \<le> unat n" using assms(2) by (simp add: unat_gt_0 Suc_le_eq)
  have "unat n * unat n * 1 \<le> unat n * unat n * unat n"
    using pos by (intro mult_le_mono) auto
  then have "unat n * unat n \<le> unat n ^ 3"
    by (simp add: power3_eq_cube)
  then show "unat n * unat n < 2 ^ 32"
    using assms(1) by linarith
  show "unat n < 2^32" using unsigned_less [of n] by simp
qed

lemma cell_coordinate_in_range:
  assumes "in_unit_interval p" "n \<noteq> 0"
  shows "\<exists>i. cell_coordinate p n = Some i \<and> unat i = nat \<lfloor>p * real (unat n)\<rfloor> \<and> unat i < unat n"
proof -
  define f where "f = \<lfloor>p * real (unat n)\<rfloor>"
  have p: "0 \<le> p" "p < 1" using assms(1) by (simp_all add: in_unit_interval_def)
  have npos: "0 < real (unat n)" using assms(2) unat_gt_0 [of n] of_nat_0_less_iff [where 'a = real, of "unat n"] by blast
  have f0: "0 \<le> f" unfolding f_def using p npos by simp
  have "p * real (unat n) < real (unat n)" using p npos by simp
  then have fn: "f < int (unat n)" unfolding f_def by (simp add: floor_less_iff)
  have n32: "unat n < 2 ^ 32" using unsigned_less [of n] by simp
  have natfn: "nat f < unat n" using f0 fn nat_less_iff [of f "unat n"] by blast
  then have natf: "nat f < 4294967296" using n32 by simp
  then have f32: "f < 4294967296" using f0 by linarith
  have "word_of_int f = (of_nat (nat f) :: u32)" using f0 by (rule word_of_int_nat)
  then have "unat (word_of_int f :: u32) = nat f mod 2 ^ LENGTH(32)"
    by (simp only: unat_of_nat)
  then have "unat (word_of_int f :: u32) = nat f"
    using natf by simp
  moreover note natfn
  ultimately have "unat (word_of_int f :: u32) = nat f \<and> unat (word_of_int f :: u32) < unat n"
    by simp
  moreover have "cell_coordinate p n = Some (word_of_int f)"
    unfolding cell_coordinate_def Let_def f_def [symmetric] using f0 f32 by simp
  ultimately show ?thesis unfolding f_def by blast
qed

lemma flat_index_unat:
  assumes "unat (n::u32) ^ 3 < 2 ^ 32" "unat i < unat n" "unat j < unat n" "unat k < unat n"
  shows "unat (flat_index n i j k) = unat k + unat n * (unat j + unat n * unat i)"
    and "unat k + unat n * (unat j + unat n * unat i) < unat n ^ 3"
proof -
  define N where "N = unat n"
  have i: "unat i \<le> N - 1" and j: "unat j \<le> N - 1" and k: "unat k \<le> N - 1" and N: "1 \<le> N"
    using assms by (simp_all add: N_def)
  have "unat j + N * unat i \<le> (N - 1) + N * (N - 1)"
    using i j by (intro add_mono mult_le_mono) auto
  also have "\<dots> = N * N - 1" using N by (simp add: algebra_simps)
  finally have b1: "unat j + N * unat i \<le> N * N - 1" .
  have NN: "1 \<le> N * N" using N by (simp add: Suc_le_eq)
  have "unat k + N * (unat j + N * unat i) \<le> (N - 1) + N * (N * N - 1)"
    using k b1 by (intro add_mono mult_le_mono) auto
  also have "\<dots> = N ^ 3 - 1" using N NN by (simp add: algebra_simps power3_eq_cube)
  finally have b2: "unat k + N * (unat j + N * unat i) \<le> N ^ 3 - 1" .
  have N3: "1 \<le> N ^ 3" using N by simp
  show lt: "unat k + unat n * (unat j + unat n * unat i) < unat n ^ 3"
    using b2 N3 by (simp add: N_def)
  have c: "N ^ 3 < 2 ^ 32" using assms(1) by (simp add: N_def)
  have a3: "unat k + N * (unat j + N * unat i) < 2 ^ 32"
    using lt c by (simp add: N_def)
  have "1 * (unat j + N * unat i) \<le> N * (unat j + N * unat i)"
    by (rule mult_le_mono1) (rule N)
  then have le: "unat j + N * unat i \<le> N * (unat j + N * unat i)"
    by (simp only: nat_mult_1)
  have a2: "unat j + N * unat i < 2 ^ 32" using a3 le by linarith
  have a2': "N * (unat j + N * unat i) < 2 ^ 32" using a3 by linarith
  have a1: "N * unat i < 2 ^ 32" using a2 by linarith
  have m1: "unat (n * i) = N * unat i"
    using a1 unat_mult_lem [of n i] by (simp add: N_def)
  have s1: "unat (j + n * i) = unat j + N * unat i"
    using a2 m1 unat_add_lem [of j "n * i"] by simp
  have m2: "unat (n * (j + n * i)) = N * (unat j + N * unat i)"
    using a2' s1 unat_mult_lem [of n "j + n * i"] by (simp add: N_def)
  have s2: "unat (k + n * (j + n * i)) = unat k + N * (unat j + N * unat i)"
    using a3 m2 unat_add_lem [of k "n * (j + n * i)"] by simp
  show "unat (flat_index n i j k) = unat k + unat n * (unat j + unat n * unat i)"
    using s2 by (simp add: flat_index_def N_def)
qed

section \<open>Deposition: one particle\<close>

lemma unat_ucast_u32_size_t: "unat (ucast (n::u32) :: size_t) = unat n"
proof -
  have "unat n < 2 ^ 32" using unsigned_less [of n] by simp
  also have "(2::nat) ^ 32 \<le> 2 ^ 64" by simp
  finally have "unat n < 2 ^ 64" .
  then show ?thesis
    by (simp add: unsigned_ucast_eq take_bit_nat_eq_self)
qed

lemma memset_cells_eq:
  assumes "unat (n::u32) ^ 3 < 2 ^ 32"
  shows "memset_cells n = unat n ^ 3"
proof -
  define N where "N = unat n"
  have c: "N * N * N < 4294967296" using assms by (simp add: N_def power3_eq_cube)
  have u: "unat (ucast n :: size_t) = N" by (simp add: N_def unat_ucast_u32_size_t)
  have "unat ((16 :: size_t) * ucast n * ucast n * ucast n) = (16 * N * N * N) mod 2 ^ 64"
    by (simp add: unat_word_ariths u mod_mult_right_eq mod_mult_left_eq)
  also have "\<dots> = 16 * (N * N * N)" using c by simp
  finally show ?thesis
    by (simp add: memset_cells_def N_def power3_eq_cube)
qed

lemma memset_zero_all:
  "length buf = m \<Longrightarrow> memset_zero buf m = Some (replicate m (0, 0))"
  by (simp add: memset_zero_def)

lemma deposit_eq:
  assumes n: "number_of_cells s \<noteq> 0" and c: "unat (number_of_cells s) ^ 3 < 2 ^ 32"
    and p: "in_unit_box p" and len: "length buf = unat (number_of_cells s) ^ 3"
  defines "t \<equiv> target_cell (number_of_cells s) p"
  shows "t < unat (number_of_cells s) ^ 3"
    and "deposit s p buf = Some (buf[t := (fst (buf ! t) + single_density s, snd (buf ! t))])"
proof -
  obtain px py pz where pos: "position p = (px, py, pz)" by (cases "position p") auto
  have u: "in_unit_interval px" "in_unit_interval py" "in_unit_interval pz"
    using p by (simp_all add: in_unit_box_def pos)
  obtain i where i: "cell_coordinate px (number_of_cells s) = Some i"
      "unat i = cell_number (number_of_cells s) px" "unat i < unat (number_of_cells s)"
    using cell_coordinate_in_range [OF u(1) n] by (auto simp: cell_number_def)
  obtain j where j: "cell_coordinate py (number_of_cells s) = Some j"
      "unat j = cell_number (number_of_cells s) py" "unat j < unat (number_of_cells s)"
    using cell_coordinate_in_range [OF u(2) n] by (auto simp: cell_number_def)
  obtain k where k: "cell_coordinate pz (number_of_cells s) = Some k"
      "unat k = cell_number (number_of_cells s) pz" "unat k < unat (number_of_cells s)"
    using cell_coordinate_in_range [OF u(3) n] by (auto simp: cell_number_def)
  have f: "unat (flat_index (number_of_cells s) i j k) = t"
    using flat_index_unat(1) [OF c i(3) j(3) k(3)]
    by (simp add: t_def target_cell_def pos idx_def i(2) j(2) k(2))
  show lt: "t < unat (number_of_cells s) ^ 3"
    using flat_index_unat(2) [OF c i(3) j(3) k(3)]
    by (simp add: t_def target_cell_def pos idx_def i(2) j(2) k(2))
  show "deposit s p buf = Some (buf[t := (fst (buf ! t) + single_density s, snd (buf ! t))])"
    using lt len by (simp add: deposit_def pos i(1) j(1) k(1) f nth_opt_def write_opt_def)
qed

section \<open>Deposition: the loop\<close>

lemma sum_list_fst_add_at:
  "t < length buf \<Longrightarrow>
     sum_list (map fst (buf[t := (fst (buf ! t) + x, b)])) = sum_list (map fst buf) + (x::real)"
proof (induction buf arbitrary: t)
  case Nil
  then show ?case by simp
next
  case (Cons c buf)
  then show ?case by (cases t) simp_all
qed

lemma for_each_deposit:
  assumes n: "number_of_cells s \<noteq> 0" and c: "unat (number_of_cells s) ^ 3 < 2 ^ 32"
  shows "length buf = unat (number_of_cells s) ^ 3 \<Longrightarrow> \<forall>p\<in>set ps. in_unit_box p \<Longrightarrow>
     \<exists>d. for_each (deposit s) ps buf = Some d \<and> length d = unat (number_of_cells s) ^ 3 \<and>
       sum_list (map fst d) = sum_list (map fst buf) + real (length ps) * single_density s \<and>
       (\<forall>y<unat (number_of_cells s) ^ 3. d ! y =
          (fst (buf ! y) +
             real (length (filter (\<lambda>p. target_cell (number_of_cells s) p = y) ps)) * single_density s,
           snd (buf ! y)))"
proof (induction ps arbitrary: buf)
  case Nil
  then show ?case by simp
next
  case (Cons p ps)
  define t where "t = target_cell (number_of_cells s) p"
  define buf' where "buf' = buf[t := (fst (buf ! t) + single_density s, snd (buf ! t))]"
  have box: "in_unit_box p" using Cons.prems(2) by simp
  have t: "t < unat (number_of_cells s) ^ 3"
    unfolding t_def by (rule deposit_eq(1) [OF n c box Cons.prems(1)])
  have step: "deposit s p buf = Some buf'"
    unfolding buf'_def t_def by (rule deposit_eq(2) [OF n c box Cons.prems(1)])
  have len': "length buf' = unat (number_of_cells s) ^ 3"
    using Cons.prems(1) by (simp add: buf'_def)
  have rest: "\<forall>p\<in>set ps. in_unit_box p" using Cons.prems(2) by simp
  obtain d where d: "for_each (deposit s) ps buf' = Some d"
      "length d = unat (number_of_cells s) ^ 3"
      "sum_list (map fst d) = sum_list (map fst buf') + real (length ps) * single_density s"
      "\<forall>y<unat (number_of_cells s) ^ 3. d ! y =
          (fst (buf' ! y) +
             real (length (filter (\<lambda>p. target_cell (number_of_cells s) p = y) ps)) * single_density s,
           snd (buf' ! y))"
    using Cons.IH [OF len' rest] by blast
  have run: "for_each (deposit s) (p # ps) buf = Some d"
    using step d(1) by simp
  have sum': "sum_list (map fst buf') = sum_list (map fst buf) + single_density s"
    unfolding buf'_def using t Cons.prems(1) by (simp add: sum_list_fst_add_at)
  have total: "sum_list (map fst d) = sum_list (map fst buf) + real (length (p # ps)) * single_density s"
    using d(3) sum' by (simp add: algebra_simps)
  have cell: "d ! y =
          (fst (buf ! y) +
             real (length (filter (\<lambda>p. target_cell (number_of_cells s) p = y) (p # ps))) * single_density s,
           snd (buf ! y))" if y: "y < unat (number_of_cells s) ^ 3" for y
  proof (cases "y = t")
    case True
    have "buf' ! y = (fst (buf ! y) + single_density s, snd (buf ! y))"
      using True t Cons.prems(1) by (simp add: buf'_def)
    then show ?thesis
      using d(4) y True by (simp add: t_def algebra_simps)
  next
    case False
    have "buf' ! y = buf ! y" using False by (simp add: buf'_def)
    then show ?thesis
      using d(4) y False by (auto simp add: t_def)
  qed
  show ?case using run d(2) total cell by blast
qed

section \<open>Deposition: mass conservation\<close>

lemma single_density_eq:
  "single_density s =
     mass (particle_collection s) / (box_width s / real (unat (number_of_cells s))) ^ 3"
  by (simp add: single_density_def Let_def power3_eq_cube)

lemma fill_density_buffer_cells:
  assumes inv: "mesh_invariant s"
    and box: "\<forall>p\<in>set (particles (particle_collection s)). in_unit_box p"
  shows "\<exists>d. fill_density_buffer s = Some (s\<lparr>density_buffer := d\<rparr>) \<and>
      length d = unat (number_of_cells s) ^ 3 \<and>
      sum_list (map fst d) =
        real (length (particles (particle_collection s))) * single_density s \<and>
      (\<forall>y<unat (number_of_cells s) ^ 3. d ! y =
         (real (length (filter (\<lambda>p. target_cell (number_of_cells s) p = y)
                   (particles (particle_collection s)))) * single_density s, 0))"
proof -
  define N3 where "N3 = unat (number_of_cells s) ^ 3"
  have n: "number_of_cells s \<noteq> 0" and c: "unat (number_of_cells s) ^ 3 < 2 ^ 32"
    and len: "length (density_buffer s) = N3"
    using inv by (simp_all add: mesh_invariant_def N3_def)
  have z: "memset_zero (density_buffer s) (memset_cells (number_of_cells s)) =
             Some (replicate N3 (0, 0))"
    using len by (simp add: memset_cells_eq [OF c] memset_zero_all N3_def)
  have lz: "length (replicate N3 (0::real, 0::real)) = unat (number_of_cells s) ^ 3"
    by (simp add: N3_def)
  obtain d where d: "for_each (deposit s) (particles (particle_collection s)) (replicate N3 (0, 0)) = Some d"
      "length d = unat (number_of_cells s) ^ 3"
      "sum_list (map fst d) = sum_list (map fst (replicate N3 (0::real, 0::real))) +
          real (length (particles (particle_collection s))) * single_density s"
      "\<forall>y<unat (number_of_cells s) ^ 3. d ! y =
          (fst (replicate N3 (0::real, 0::real) ! y) +
             real (length (filter (\<lambda>p. target_cell (number_of_cells s) p = y)
                (particles (particle_collection s)))) * single_density s,
           snd (replicate N3 (0::real, 0::real) ! y))"
    using for_each_deposit [OF n c lz box] by blast
  have "fill_density_buffer s = Some (s\<lparr>density_buffer := d\<rparr>)"
    by (simp add: fill_density_buffer_def z d(1))
  moreover have "sum_list (map fst (replicate N3 (0::real, 0::real))) = 0"
    by (simp add: map_replicate_const sum_list_replicate)
  then have "sum_list (map fst d) =
        real (length (particles (particle_collection s))) * single_density s"
    using d(3) by simp
  moreover have "\<forall>y<unat (number_of_cells s) ^ 3. d ! y =
         (real (length (filter (\<lambda>p. target_cell (number_of_cells s) p = y)
                   (particles (particle_collection s)))) * single_density s, 0)"
    using d(4) by (simp add: N3_def)
  ultimately show ?thesis using d(2) by blast
qed

text \<open>
  C4.  Mass conservation of the deposition: when the mesh invariant holds and every
  particle lies in the unit box, \<^verbatim>\<open>fill_density_buffer\<close> returns, the real parts of the
  density buffer sum to \<open>N\<^sub>p \<cdot> mass / (W / N\<^sub>c)\<^sup>3\<close>, the real part of each cell is
  \<open>mass / (W / N\<^sub>c)\<^sup>3\<close> times the number of particles whose nearest grid point it is,
  and every imaginary part is zero.
\<close>

theorem fill_density_buffer_conserves_mass:
  assumes "mesh_invariant s"
    and "\<forall>p\<in>set (particles (particle_collection s)). in_unit_box p"
  shows "\<exists>s'. fill_density_buffer s = Some s' \<and>
      sum_list (map fst (density_buffer s')) =
        real (get_num_particles (particle_collection s)) * mass (particle_collection s)
          / (box_width s / real (unat (number_of_cells s))) ^ 3 \<and>
      (\<forall>y<unat (number_of_cells s) ^ 3. fst (density_buffer s' ! y) =
         real (length (filter (\<lambda>p. target_cell (number_of_cells s) p = y)
                   (particles (particle_collection s))))
           * (mass (particle_collection s) / (box_width s / real (unat (number_of_cells s))) ^ 3)) \<and>
      (\<forall>c\<in>set (density_buffer s'). snd c = 0)"
proof -
  obtain d where d: "fill_density_buffer s = Some (s\<lparr>density_buffer := d\<rparr>)"
      "length d = unat (number_of_cells s) ^ 3"
      "sum_list (map fst d) =
        real (length (particles (particle_collection s))) * single_density s"
      "\<forall>y<unat (number_of_cells s) ^ 3. d ! y =
         (real (length (filter (\<lambda>p. target_cell (number_of_cells s) p = y)
                   (particles (particle_collection s)))) * single_density s, 0)"
    using fill_density_buffer_cells [OF assms] by blast
  have im: "\<forall>c\<in>set d. snd c = 0"
  proof
    fix c assume "c \<in> set d"
    then obtain y where "y < length d" "d ! y = c" by (auto simp: in_set_conv_nth)
    then show "snd c = 0" using d(2) d(4) by auto
  qed
  have re: "\<forall>y<unat (number_of_cells s) ^ 3. fst (d ! y) =
         real (length (filter (\<lambda>p. target_cell (number_of_cells s) p = y)
                   (particles (particle_collection s))))
           * (mass (particle_collection s) / (box_width s / real (unat (number_of_cells s))) ^ 3)"
    using d(4) by (simp add: single_density_eq)
  have su: "sum_list (map fst d) =
        real (get_num_particles (particle_collection s)) * mass (particle_collection s)
          / (box_width s / real (unat (number_of_cells s))) ^ 3"
    using d(3) by (simp add: single_density_eq get_num_particles_def)
  show ?thesis using d(1) su re im by auto
qed

theorem fill_density_buffer_conserves_mass_witness:
  "mesh_invariant sim0 \<and>
   list_all in_unit_box (particles (particle_collection sim0)) \<and>
   (\<exists>s'. fill_density_buffer sim0 = Some s' \<and>
      sum_list (map fst (density_buffer s')) = 2 * 3 / (10 / 2) ^ 3 \<and>
      (\<forall>c\<in>set (density_buffer s'). snd c = 0))"
proof -
  have h1: "mesh_invariant sim0"
    by (simp add: mesh_invariant_def sim0_def)
  have h2: "\<forall>p\<in>set (particles (particle_collection sim0)). in_unit_box p"
    by (simp add: sim0_def in_unit_box_def in_unit_interval_def)
  obtain s' where s': "fill_density_buffer sim0 = Some s'"
    "sum_list (map fst (density_buffer s')) =
        real (get_num_particles (particle_collection sim0)) * mass (particle_collection sim0)
          / (box_width sim0 / real (unat (number_of_cells sim0))) ^ 3"
    "\<forall>c\<in>set (density_buffer s'). snd c = 0"
    using fill_density_buffer_conserves_mass [OF h1 h2] by blast
  have "sum_list (map fst (density_buffer s')) = 2 * 3 / (10 / 2) ^ 3"
    using s'(2) by (simp add: sim0_def get_num_particles_def)
  then show ?thesis using h1 h2 s'(1) s'(3) unfolding list_all_iff by blast
qed

section \<open>Poisson step: one cell\<close>

lemma cells_below_2048:
  assumes "unat (n::u32) ^ 3 < 2 ^ 32"
  shows "unat n < 2048"
proof (rule ccontr)
  assume "\<not> unat n < 2048"
  then have "2048 \<le> unat n" by simp
  then have "(2048::nat) ^ 3 \<le> unat n ^ 3" by (rule power_mono) simp
  then show False using assms by simp
qed

lemma for_each_pointwise:
  assumes body: "\<And>x st. x \<in> set xs \<Longrightarrow> length st = m \<Longrightarrow> body x st = Some (st[x := f x (st ! x)])"
  shows "distinct xs \<Longrightarrow> \<forall>x\<in>set xs. x < m \<Longrightarrow> length st = m \<Longrightarrow>
     \<exists>st'. for_each body xs st = Some st' \<and> length st' = m \<and>
        (\<forall>y<m. st' ! y = (if y \<in> set xs then f y (st ! y) else st ! y))"
  using body
proof (induction xs arbitrary: st)
  case Nil
  then show ?case by simp
next
  case (Cons x xs)
  define st1 where "st1 = st[x := f x (st ! x)]"
  have step: "body x st = Some st1"
    unfolding st1_def using Cons.prems(3) by (intro Cons.prems(4)) simp_all
  have len1: "length st1 = m" using Cons.prems(3) by (simp add: st1_def)
  have d: "distinct xs" and b: "\<forall>x\<in>set xs. x < m" and x: "x \<notin> set xs" "x < m"
    using Cons.prems(1,2) by simp_all
  have body': "\<And>x st. x \<in> set xs \<Longrightarrow> length st = m \<Longrightarrow> body x st = Some (st[x := f x (st ! x)])"
    using Cons.prems(4) by simp
  obtain st' where st': "for_each body xs st1 = Some st'" "length st' = m"
      "\<forall>y<m. st' ! y = (if y \<in> set xs then f y (st1 ! y) else st1 ! y)"
    using Cons.IH [OF d b len1 body'] by blast
  have "for_each body (x # xs) st = Some st'" using step st'(1) by simp
  moreover have "st' ! y = (if y \<in> set (x # xs) then f y (st ! y) else st ! y)" if "y < m" for y
  proof (cases "y = x")
    case True
    then show ?thesis using st'(3) that x Cons.prems(3) by (simp add: st1_def)
  next
    case False
    then show ?thesis using st'(3) that by (simp add: st1_def)
  qed
  ultimately show ?case using st'(2) by blast
qed

lemma norm_factor_eq:
  assumes n: "number_of_cells s \<noteq> 0" and c: "unat (number_of_cells s) ^ 3 < 2 ^ 32"
    and m: "m < unat (number_of_cells s) ^ 3"
  shows "norm_factor s (of_nat m) =
     Some (greens_factor (box_width s) (unat (number_of_cells s)) m)"
proof -
  define N where "N = unat (number_of_cells s)"
  define w :: u32 where "w = of_nat m"
  have N0: "0 < N" using n unat_gt_0 [of "number_of_cells s"] by (simp add: N_def)
  have N2048: "N < 2048" using cells_below_2048 [OF c] by (simp add: N_def)
  have NN: "N * N < 4294967296" using unat_cells_less(1) [OF c n] by (simp add: N_def)
  have m32: "m < 4294967296" using m c by simp
  have uw: "unat w = m" using m32 by (simp add: w_def unat_of_nat)
  have unn: "unat (number_of_cells s * number_of_cells s) = N * N"
    using NN unat_mult_lem [of "number_of_cells s" "number_of_cells s"] by (simp add: N_def)
  have nn0: "number_of_cells s * number_of_cells s \<noteq> 0"
    using unn N0 unat_gt_0 [of "number_of_cells s * number_of_cells s"] by simp
  define i j k where "i = w div (number_of_cells s * number_of_cells s)"
    and "j = (w div number_of_cells s) mod number_of_cells s"
    and "k = w mod number_of_cells s"
  have ui: "unat i = m div (N * N)" by (simp add: i_def unat_div unn uw)
  have uj: "unat j = (m div N) mod N" by (simp add: j_def unat_div unat_mod uw N_def)
  have uk: "unat k = m mod N" by (simp add: k_def unat_mod uw N_def)
  have "m < N * N * N" using m by (simp add: N_def power3_eq_cube)
  then have "m div (N * N) < N" using N0 by (simp add: less_mult_imp_div_less mult.commute)
  then have bi: "unat i < 2048" using ui N2048 by simp
  have "(m div N) mod N < N" using N0 by simp
  then have bj: "unat j < 2048" using uj N2048 by linarith
  have "m mod N < N" using N0 by simp
  then have bk: "unat k < 2048" using uk N2048 by linarith
  have sq: "unat x * unat x < 4194304" if "unat x < 2048" for x :: u32
  proof -
    have "unat x * unat x \<le> 2047 * 2047" using that by (intro mult_le_mono) simp_all
    then show ?thesis by simp
  qed
  have uii: "unat (i * i) = unat i * unat i"
    using sq [OF bi] unat_mult_lem [of i i] by simp
  have ujj: "unat (j * j) = unat j * unat j"
    using sq [OF bj] unat_mult_lem [of j j] by simp
  have ukk: "unat (k * k) = unat k * unat k"
    using sq [OF bk] unat_mult_lem [of k k] by simp
  have s1: "unat (i * i + j * j) = unat i * unat i + unat j * unat j"
    using sq [OF bi] sq [OF bj] uii ujj unat_add_lem [of "i * i" "j * j"] by simp
  have s2: "unat (i * i + j * j + k * k) = unat i * unat i + unat j * unat j + unat k * unat k"
    using sq [OF bi] sq [OF bj] sq [OF bk] s1 ukk unat_add_lem [of "i * i + j * j" "k * k"] by simp
  have "norm_factor s w =
     Some (- 4 * M_PI * box_width s * box_width s / real (unat (i * i + j * j + k * k))
             * (1 / (8 * real N * real N * real N)))"
    unfolding norm_factor_def Let_def i_def j_def k_def N_def using nn0 by simp
  then show ?thesis
    unfolding s2 ui uj uk w_def N_def
    by (simp add: greens_factor_def M_PI_def power2_eq_square power3_eq_cube)
qed

section \<open>Poisson step: the buffer\<close>

lemma fftw_execute_full:
  "length inp = unat n ^ 3 \<Longrightarrow> length out = unat n ^ 3 \<Longrightarrow>
     fftw_execute plan n inp out = Some (map (plan inp) [0..<unat n ^ 3])"
  by (simp add: fftw_execute_def Let_def)

lemma total_size_unat:
  assumes "unat (n::u32) ^ 3 < 2 ^ 32" "n \<noteq> 0"
  shows "unat (n * n * n) = unat n ^ 3"
proof -
  have a: "unat (n * n) = unat n * unat n"
    using unat_cells_less(1) [OF assms] unat_mult_lem [of n n] by simp
  have "unat n * unat n * unat n < 2 ^ 32" using assms(1) by (simp add: power3_eq_cube)
  then have "unat (n * n * n) = unat (n * n) * unat n"
    using a unat_mult_lem [of "n * n" n] by simp
  then show ?thesis using a by (simp add: power3_eq_cube)
qed

lemma scale_cell_eq:
  assumes n: "number_of_cells s \<noteq> 0" and c: "unat (number_of_cells s) ^ 3 < 2 ^ 32"
    and m: "m < unat (number_of_cells s) ^ 3" and len: "length ks = unat (number_of_cells s) ^ 3"
  shows "scale_cell s m ks =
     Some (ks[m := (fst (ks ! m) * greens_factor (box_width s) (unat (number_of_cells s)) m,
                    snd (ks ! m) * greens_factor (box_width s) (unat (number_of_cells s)) m)])"
  using m len by (simp add: scale_cell_def norm_factor_eq [OF n c m] nth_opt_def write_opt_def)

lemma fill_potential_buffer_cells:
  assumes inv: "mesh_invariant s"
  shows "\<exists>k2. fill_potential_buffer forward_plan backward_plan s =
        Some (s\<lparr>k_space_buffer := k2,
                potential_buffer := map (backward_plan k2) [0..<unat (number_of_cells s) ^ 3]\<rparr>) \<and>
      length k2 = unat (number_of_cells s) ^ 3 \<and>
      k2 ! 0 = (0, 0) \<and>
      (\<forall>m. 1 \<le> m \<and> m < unat (number_of_cells s) ^ 3 \<longrightarrow>
         k2 ! m =
           (fst (forward_plan (density_buffer s) m)
              * greens_factor (box_width s) (unat (number_of_cells s)) m,
            snd (forward_plan (density_buffer s) m)
              * greens_factor (box_width s) (unat (number_of_cells s)) m))"
proof -
  define N3 where "N3 = unat (number_of_cells s) ^ 3"
  define G where "G = greens_factor (box_width s) (unat (number_of_cells s))"
  have n: "number_of_cells s \<noteq> 0" and c: "unat (number_of_cells s) ^ 3 < 2 ^ 32"
    and ld: "length (density_buffer s) = unat (number_of_cells s) ^ 3"
    and lk: "length (k_space_buffer s) = unat (number_of_cells s) ^ 3"
    and lp: "length (potential_buffer s) = unat (number_of_cells s) ^ 3"
    using inv by (simp_all add: mesh_invariant_def)
  have pos: "0 < N3"
    using n unat_gt_0 [of "number_of_cells s"] by (simp add: N3_def)
  define k0 where "k0 = map (forward_plan (density_buffer s)) [0..<N3]"
  define k1 where "k1 = k0[0 := (0::real, 0::real)]"
  have e0: "fftw_execute forward_plan (number_of_cells s) (density_buffer s) (k_space_buffer s)
              = Some k0"
    unfolding k0_def N3_def by (rule fftw_execute_full [OF ld lk])
  have e1: "write_opt k0 0 (0, 0) = Some k1"
    using pos by (simp add: write_opt_def k0_def k1_def)
  have l1: "length k1 = N3" by (simp add: k1_def k0_def)
  have ts: "unat (number_of_cells s * number_of_cells s * number_of_cells s) = N3"
    unfolding N3_def by (rule total_size_unat [OF c n])
  have body: "scale_cell s x st = Some (st[x := (fst (st ! x) * G x, snd (st ! x) * G x)])"
    if "x \<in> set [1..<N3]" "length st = N3" for x st
    unfolding G_def using that scale_cell_eq [OF n c, of x st] by (simp add: N3_def)
  obtain k2 where k2: "for_each (scale_cell s) [1..<N3] k1 = Some k2" "length k2 = N3"
      "\<forall>y<N3. k2 ! y = (if y \<in> set [1..<N3] then (fst (k1 ! y) * G y, snd (k1 ! y) * G y) else k1 ! y)"
    using for_each_pointwise [of "[1..<N3]" N3 "scale_cell s" "\<lambda>x c. (fst c * G x, snd c * G x)" k1,
            OF body _ _ l1]
    by auto
  have e3: "fftw_execute backward_plan (number_of_cells s) k2 (potential_buffer s)
              = Some (map (backward_plan k2) [0..<N3])"
    using fftw_execute_full [of k2 "number_of_cells s" "potential_buffer s" backward_plan] k2(2) lp
    by (simp add: N3_def)
  have run: "fill_potential_buffer forward_plan backward_plan s =
        Some (s\<lparr>k_space_buffer := k2, potential_buffer := map (backward_plan k2) [0..<N3]\<rparr>)"
    using k2(1) by (simp add: fill_potential_buffer_def Let_def e0 e1 ts e3)
  have dc: "k2 ! 0 = (0, 0)"
    using k2(3) pos by (simp add: k1_def k0_def)
  have sc: "k2 ! m = (fst (forward_plan (density_buffer s) m) * G m,
                       snd (forward_plan (density_buffer s) m) * G m)"
    if "1 \<le> m" "m < N3" for m
    using k2(3) that by (simp add: k1_def k0_def)
  show ?thesis
    using run k2(2) dc sc unfolding N3_def G_def by blast
qed

section \<open>Poisson step: results\<close>

text \<open>
  C3.  In the Poisson step, for every index \<open>m\<close> from 1 to \<open>N\<^sub>c\<^sup>3 - 1\<close>, with
  \<open>i = m div N\<^sub>c\<^sup>2\<close>, \<open>j = (m div N\<^sub>c) mod N\<^sub>c\<close> and \<open>k = m mod N\<^sub>c\<close>, both components of
  the forward transform of the density at \<open>m\<close> are multiplied by
  \<open>- 4\<pi> \<cdot> W\<^sup>2 / (i\<^sup>2 + j\<^sup>2 + k\<^sup>2) \<cdot> 1 / (8 \<cdot> N\<^sub>c\<^sup>3)\<close>, with the raw triple \<open>(i, j, k)\<close>.
\<close>

theorem fill_potential_buffer_scaling:
  assumes "mesh_invariant s" and "1 \<le> m" and "m < unat (number_of_cells s) ^ 3"
  shows "\<exists>s'. fill_potential_buffer forward_plan backward_plan s = Some s' \<and>
     (let N = unat (number_of_cells s);
          i = m div N\<^sup>2; j = (m div N) mod N; k = m mod N;
          G = - 4 * pi * (box_width s)\<^sup>2 / real (i\<^sup>2 + j\<^sup>2 + k\<^sup>2) * (1 / (8 * real N ^ 3));
          F = forward_plan (density_buffer s) m
      in k_space_buffer s' ! m = (fst F * G, snd F * G))"
proof -
  obtain k2 where k2:
    "fill_potential_buffer forward_plan backward_plan s =
        Some (s\<lparr>k_space_buffer := k2,
                potential_buffer := map (backward_plan k2) [0..<unat (number_of_cells s) ^ 3]\<rparr>)"
    "\<forall>m. 1 \<le> m \<and> m < unat (number_of_cells s) ^ 3 \<longrightarrow>
         k2 ! m =
           (fst (forward_plan (density_buffer s) m)
              * greens_factor (box_width s) (unat (number_of_cells s)) m,
            snd (forward_plan (density_buffer s) m)
              * greens_factor (box_width s) (unat (number_of_cells s)) m)"
    using fill_potential_buffer_cells [OF assms(1), of forward_plan backward_plan] by blast
  have "k2 ! m =
           (fst (forward_plan (density_buffer s) m)
              * greens_factor (box_width s) (unat (number_of_cells s)) m,
            snd (forward_plan (density_buffer s) m)
              * greens_factor (box_width s) (unat (number_of_cells s)) m)"
    using k2(2) assms(2,3) by blast
  then show ?thesis
    using k2(1) by (simp add: Let_def greens_factor_def)
qed

theorem fill_potential_buffer_scaling_witness:
  "mesh_invariant sim3 \<and> (1::nat) \<le> 2 \<and> 2 < unat (number_of_cells sim3) ^ 3 \<and>
   (\<exists>s'. fill_potential_buffer copy_plan copy_plan sim3 = Some s' \<and>
      k_space_buffer s' ! 2 = (- 4 * pi * 100 / 4 * (1 / 216), 0))"
proof -
  have h1: "mesh_invariant sim3" by (simp add: mesh_invariant_def sim3_def)
  have h2: "(1::nat) \<le> 2" by simp
  have h3: "2 < unat (number_of_cells sim3) ^ 3" by (simp add: sim3_def)
  obtain s' where s': "fill_potential_buffer copy_plan copy_plan sim3 = Some s'"
    "(let N = unat (number_of_cells sim3);
          i = 2 div N\<^sup>2; j = (2 div N) mod N; k = 2 mod N;
          G = - 4 * pi * (box_width sim3)\<^sup>2 / real (i\<^sup>2 + j\<^sup>2 + k\<^sup>2) * (1 / (8 * real N ^ 3));
          F = copy_plan (density_buffer sim3) 2
      in k_space_buffer s' ! 2 = (fst F * G, snd F * G))"
    using fill_potential_buffer_scaling [OF h1 h2 h3, of copy_plan copy_plan] by blast
  have "k_space_buffer s' ! 2 = (- 4 * pi * 100 / 4 * (1 / 216), 0)"
    using s'(2) by (simp add: sim3_def copy_plan_def Let_def)
  then show ?thesis using h1 h3 s'(1) by simp
qed

lemma scale_cell_keeps:
  assumes "scale_cell s x st = Some st'"
  shows "length st' = length st" and "y \<noteq> x \<Longrightarrow> st' ! y = st ! y"
proof -
  obtain v where v: "st' = st[x := v]"
    using assms by (auto simp: scale_cell_def write_opt_def bind_eq_Some_conv split: if_splits)
  show "length st' = length st" by (simp add: v)
  show "st' ! y = st ! y" if "y \<noteq> x" using that by (simp add: v)
qed

lemma for_each_keeps:
  "\<forall>x\<in>set xs. \<forall>st st'. body x st = Some st' \<longrightarrow> length st' = length st \<and> st' ! y = st ! y \<Longrightarrow>
     for_each body xs st = Some st' \<Longrightarrow> length st' = length st \<and> st' ! y = st ! y"
proof (induction xs arbitrary: st)
  case Nil
  then show ?case by simp
next
  case (Cons x xs)
  obtain st1 where st1: "body x st = Some st1" "for_each body xs st1 = Some st'"
    using Cons.prems(2) by (auto split: option.splits)
  have a: "length st1 = length st \<and> st1 ! y = st ! y"
    using Cons.prems(1) st1(1) by simp
  have rest: "\<forall>x\<in>set xs. \<forall>st st'. body x st = Some st' \<longrightarrow>
      length st' = length st \<and> st' ! y = st ! y"
    using Cons.prems(1) by simp
  have "length st' = length st1 \<and> st' ! y = st1 ! y"
    by (rule Cons.IH [OF rest st1(2)])
  then show ?case using a by simp
qed

lemma fill_potential_buffer_dc:
  assumes "fill_potential_buffer forward_plan backward_plan s = Some s'"
  shows "k_space_buffer s' ! 0 = (0, 0)"
proof -
  obtain k0 k1 k2 pot where r:
    "write_opt k0 0 (0, 0) = Some k1"
    "for_each (scale_cell s)
       [1..<unat (number_of_cells s * number_of_cells s * number_of_cells s)] k1 = Some k2"
    "s' = s\<lparr>k_space_buffer := k2, potential_buffer := pot\<rparr>"
    using assms by (auto simp: fill_potential_buffer_def Let_def bind_eq_Some_conv)
  have k1: "k1 ! 0 = (0, 0)"
    using r(1) by (auto simp: write_opt_def split: if_splits)
  have "\<forall>x\<in>set [1..<unat (number_of_cells s * number_of_cells s * number_of_cells s)].
      \<forall>st st'. scale_cell s x st = Some st' \<longrightarrow> length st' = length st \<and> st' ! 0 = st ! 0"
    using scale_cell_keeps by fastforce
  then have "length k2 = length k1 \<and> k2 ! 0 = k1 ! 0"
    using r(2) by (rule for_each_keeps)
  then show ?thesis using k1 by (simp add: r(3))
qed

text \<open>
  C6.  After the Poisson step both components of the cell of the k-space buffer with index
  0 are zero: whenever the step returns, and it returns on every state that meets the mesh
  invariant.
\<close>

theorem fill_potential_buffer_dc_zero:
  "(mesh_invariant s \<longrightarrow> (\<exists>s'. fill_potential_buffer forward_plan backward_plan s = Some s')) \<and>
   (\<forall>s'. fill_potential_buffer forward_plan backward_plan s = Some s' \<longrightarrow>
      k_space_buffer s' ! 0 = (0, 0))"
proof (intro conjI impI allI)
  assume "mesh_invariant s"
  then show "\<exists>s'. fill_potential_buffer forward_plan backward_plan s = Some s'"
    using fill_potential_buffer_cells [of s forward_plan backward_plan] by blast
next
  fix s'
  assume "fill_potential_buffer forward_plan backward_plan s = Some s'"
  then show "k_space_buffer s' ! 0 = (0, 0)" by (rule fill_potential_buffer_dc)
qed

theorem fill_potential_buffer_dc_zero_witness:
  "mesh_invariant sim0 \<and>
   (\<exists>s'. fill_potential_buffer copy_plan copy_plan sim0 = Some s' \<and>
      k_space_buffer s' ! 0 = (0, 0))"
proof -
  have h: "mesh_invariant sim0" by (simp add: mesh_invariant_def sim0_def)
  show ?thesis
    using h fill_potential_buffer_dc_zero [of sim0 copy_plan copy_plan] by blast
qed

section \<open>Gradient: the wrapping loops\<close>

lemma sint_small:
  assumes "unat (x::u32) < 2147483648"
  shows "sint x = int (unat x)"
proof -
  have "int (unat x) < 2147483648" using assms by linarith
  then have "uint x < 2147483648" by simp
  moreover have "- (2 ^ 31) \<le> uint x"
    by (rule order_trans [where y = 0]) simp_all
  ultimately have "signed_take_bit 31 (uint x) = uint x"
    by (intro signed_take_bit_int_eq_self) simp_all
  then show ?thesis by (simp add: sint_uint)
qed

lemma wrap_high_below: "x < n \<Longrightarrow> wrap_high x n = Some x"
  by (subst wrap_high.simps) (auto dest: leD)

lemma wrap_high_at: "n \<noteq> 0 \<Longrightarrow> wrap_high n n = Some 0"
  by (subst wrap_high.simps) (simp add: wrap_high_below word_neq_0_conv)

lemma wrap_low_nonneg: "0 \<le> sint x \<Longrightarrow> wrap_low x n = Some x"
  by (subst wrap_low.simps) (simp add: leD)

lemma of_nat_unat_small:
  "i < 4294967296 \<Longrightarrow> unat (of_nat i :: u32) = i"
  by (simp add: unat_of_nat)

lemma unat_of_nat_succ:
  assumes "i < 4294967295"
  shows "unat (of_nat i + 1 :: u32) = Suc i"
proof -
  have "unat (of_nat i :: u32) = i" using assms by (simp add: of_nat_unat_small)
  moreover have "unat (1 :: u32) = 1" by simp
  ultimately show ?thesis
    using assms unat_add_lem [of "of_nat i :: u32" 1] by simp
qed

lemma wrap_high_succ:
  assumes n: "n \<noteq> 0" and i: "i < unat (n::u32)"
  shows "\<exists>h. wrap_high (of_nat i + 1) n = Some h \<and> unat h = Suc i mod unat n"
proof -
  have n32: "unat n < 4294967296" using unsigned_less [of n] by simp
  have u: "unat (of_nat i + 1 :: u32) = Suc i"
    using i n32 by (intro unat_of_nat_succ) simp
  show ?thesis
  proof (cases "Suc i < unat n")
    case True
    then have "(of_nat i + 1 :: u32) < n" using u by (simp add: word_less_nat_alt)
    then have "wrap_high (of_nat i + 1) n = Some (of_nat i + 1)" by (rule wrap_high_below)
    then show ?thesis using True u by simp
  next
    case False
    then have e: "Suc i = unat n" using i by simp
    then have "(of_nat i + 1 :: u32) = n" using u by (simp add: word_unat_eq_iff)
    then show ?thesis using wrap_high_at [OF n] e by simp
  qed
qed

lemma wrap_low_pred:
  assumes n: "n \<noteq> 0" and c: "unat (n::u32) < 2048" and i: "i < unat n"
  shows "\<exists>l. wrap_low (of_nat i - 1) n = Some l \<and> unat l = (i + unat n - 1) mod unat n"
proof (cases i)
  case 0
  have u: "unat (n - 1) = unat n - 1"
    using n by (simp add: unat_minus_one)
  have "sint (n - 1) = int (unat (n - 1))"
    using c u by (intro sint_small) simp
  then have nonneg: "0 \<le> sint (n - 1)" by simp
  have "wrap_low (- 1) n = wrap_low (- 1 + n) n"
    by (subst wrap_low.simps) simp
  also have "\<dots> = Some (n - 1)" using wrap_low_nonneg [OF nonneg, of n] by simp
  finally have "wrap_low (of_nat i - 1) n = Some (n - 1)" using 0 by simp
  moreover have "(0 + unat n - 1) mod unat n = unat n - 1"
    using i by simp
  ultimately show ?thesis using 0 u by simp
next
  case (Suc k)
  have k: "k < 2048" using Suc i c by simp
  have uk: "unat (of_nat k :: u32) = k" using k by (simp add: of_nat_unat_small)
  have "sint (of_nat k :: u32) = int (unat (of_nat k :: u32))"
    using uk k by (intro sint_small) simp
  then have nonneg: "0 \<le> sint (of_nat k :: u32)" by simp
  have "wrap_low (of_nat k) n = Some (of_nat k)" by (rule wrap_low_nonneg [OF nonneg])
  moreover have "(i + unat n - 1) mod unat n = k" using Suc i by simp
  ultimately show ?thesis using Suc uk by simp
qed

section \<open>Gradient: one cell\<close>

lemma those_map_Some:
  "(\<And>x. x \<in> set xs \<Longrightarrow> f x = Some (g x)) \<Longrightarrow> those (map f xs) = Some (map g xs)"
  by (induction xs) simp_all

lemma read_re_cell:
  assumes c: "unat (n::u32) ^ 3 < 2 ^ 32" and len: "length potential = unat n ^ 3"
    and i: "unat i < unat n" and j: "unat j < unat n" and k: "unat k < unat n"
  shows "read_re potential (flat_index n i j k) = Some (phi potential (unat n) (unat i) (unat j) (unat k))"
  using flat_index_unat [OF c i j k] len
  by (simp add: read_re_def nth_opt_def phi_def idx_def)

lemma gradient_cell_eq:
  assumes n: "number_of_cells s \<noteq> 0" and c: "unat (number_of_cells s) ^ 3 < 2 ^ 32"
    and len: "length potential = unat (number_of_cells s) ^ 3"
    and i: "i < unat (number_of_cells s)" and j: "j < unat (number_of_cells s)"
    and k: "k < unat (number_of_cells s)"
  defines "N \<equiv> unat (number_of_cells s)"
  defines "h \<equiv> 2 * (box_width s / real (unat (number_of_cells s)))"
  shows "gradient_cell s potential (of_nat i) (of_nat j) (of_nat k) =
     Some ((phi potential N (Suc i mod N) j k - phi potential N ((i + N - 1) mod N) j k) / h,
           (phi potential N i (Suc j mod N) k - phi potential N i ((j + N - 1) mod N) k) / h,
           (phi potential N i j (Suc k mod N) - phi potential N i j ((k + N - 1) mod N)) / h)"
proof -
  have N2048: "unat (number_of_cells s) < 2048" by (rule cells_below_2048 [OF c])
  have N0: "0 < N" using n unat_gt_0 [of "number_of_cells s"] by (simp add: N_def)
  have ui: "unat (of_nat i :: u32) = i" and uj: "unat (of_nat j :: u32) = j"
    and uk: "unat (of_nat k :: u32) = k"
    using i j k N2048 by (simp_all add: of_nat_unat_small)
  have bi: "unat (of_nat i :: u32) < unat (number_of_cells s)"
    and bj: "unat (of_nat j :: u32) < unat (number_of_cells s)"
    and bk: "unat (of_nat k :: u32) < unat (number_of_cells s)"
    using i j k ui uj uk by simp_all
  obtain ih where ih: "wrap_high (of_nat i + 1) (number_of_cells s) = Some ih" "unat ih = Suc i mod N"
    using wrap_high_succ [OF n i] unfolding N_def by blast
  obtain il where il: "wrap_low (of_nat i - 1) (number_of_cells s) = Some il" "unat il = (i + N - 1) mod N"
    using wrap_low_pred [OF n N2048 i] unfolding N_def by blast
  obtain jh where jh: "wrap_high (of_nat j + 1) (number_of_cells s) = Some jh" "unat jh = Suc j mod N"
    using wrap_high_succ [OF n j] unfolding N_def by blast
  obtain jl where jl: "wrap_low (of_nat j - 1) (number_of_cells s) = Some jl" "unat jl = (j + N - 1) mod N"
    using wrap_low_pred [OF n N2048 j] unfolding N_def by blast
  obtain kh where kh: "wrap_high (of_nat k + 1) (number_of_cells s) = Some kh" "unat kh = Suc k mod N"
    using wrap_high_succ [OF n k] unfolding N_def by blast
  obtain kl where kl: "wrap_low (of_nat k - 1) (number_of_cells s) = Some kl" "unat kl = (k + N - 1) mod N"
    using wrap_low_pred [OF n N2048 k] unfolding N_def by blast
  have b: "unat ih < unat (number_of_cells s)" "unat il < unat (number_of_cells s)"
    "unat jh < unat (number_of_cells s)" "unat jl < unat (number_of_cells s)"
    "unat kh < unat (number_of_cells s)" "unat kl < unat (number_of_cells s)"
    using N0 by (simp_all add: ih(2) il(2) jh(2) jl(2) kh(2) kl(2) N_def [symmetric])
  have r: "read_re potential (flat_index (number_of_cells s) ih (of_nat j) (of_nat k))
             = Some (phi potential N (Suc i mod N) j k)"
    "read_re potential (flat_index (number_of_cells s) il (of_nat j) (of_nat k))
             = Some (phi potential N ((i + N - 1) mod N) j k)"
    "read_re potential (flat_index (number_of_cells s) (of_nat i) jh (of_nat k))
             = Some (phi potential N i (Suc j mod N) k)"
    "read_re potential (flat_index (number_of_cells s) (of_nat i) jl (of_nat k))
             = Some (phi potential N i ((j + N - 1) mod N) k)"
    "read_re potential (flat_index (number_of_cells s) (of_nat i) (of_nat j) kh)
             = Some (phi potential N i j (Suc k mod N))"
    "read_re potential (flat_index (number_of_cells s) (of_nat i) (of_nat j) kl)
             = Some (phi potential N i j ((k + N - 1) mod N))"
    using read_re_cell [OF c len b(1) bj bk] read_re_cell [OF c len b(2) bj bk]
      read_re_cell [OF c len bi b(3) bk] read_re_cell [OF c len bi b(4) bk]
      read_re_cell [OF c len bi bj b(5)] read_re_cell [OF c len bi bj b(6)]
    by (simp_all only: ih(2) il(2) jh(2) jl(2) kh(2) kl(2) ui uj uk N_def [symmetric])
  show ?thesis
    unfolding gradient_cell_def Let_def
    by (simp only: ih(1) il(1) jh(1) jl(1) kh(1) kl(1) r bind.bind_lunit h_def)
qed

section \<open>Gradient: results\<close>

lemma calculate_gradient_eq:
  assumes n: "number_of_cells s \<noteq> 0" and c: "unat (number_of_cells s) ^ 3 < 2 ^ 32"
    and len: "length potential = unat (number_of_cells s) ^ 3"
  defines "N \<equiv> unat (number_of_cells s)"
  shows "calculate_gradient s potential =
     Some (map (\<lambda>i. map (\<lambda>j. map (\<lambda>k.
             central_difference potential (box_width s) N i j k) [0..<N]) [0..<N]) [0..<N])"
proof -
  have cell: "gradient_cell s potential (of_nat i) (of_nat j) (of_nat k) =
      Some (central_difference potential (box_width s) N i j k)"
    if "i \<in> set [0..<N]" "j \<in> set [0..<N]" "k \<in> set [0..<N]" for i j k
    using that gradient_cell_eq [OF n c len, of i j k]
    by (simp add: central_difference_def N_def)
  have row: "those (map (\<lambda>k. gradient_cell s potential (of_nat i) (of_nat j) (of_nat k)) [0..<N]) =
      Some (map (\<lambda>k. central_difference potential (box_width s) N i j k) [0..<N])"
    if "i \<in> set [0..<N]" "j \<in> set [0..<N]" for i j
    by (rule those_map_Some) (rule cell [OF that])
  have plane: "those (map (\<lambda>j. those (map (\<lambda>k.
        gradient_cell s potential (of_nat i) (of_nat j) (of_nat k)) [0..<N])) [0..<N]) =
      Some (map (\<lambda>j. map (\<lambda>k. central_difference potential (box_width s) N i j k) [0..<N]) [0..<N])"
    if "i \<in> set [0..<N]" for i
    by (rule those_map_Some) (rule row [OF that])
  have "those (map (\<lambda>i. those (map (\<lambda>j. those (map (\<lambda>k.
        gradient_cell s potential (of_nat i) (of_nat j) (of_nat k)) [0..<N])) [0..<N])) [0..<N]) =
      Some (map (\<lambda>i. map (\<lambda>j. map (\<lambda>k.
             central_difference potential (box_width s) N i j k) [0..<N]) [0..<N]) [0..<N])"
    by (rule those_map_Some) (rule plane)
  then show ?thesis by (simp add: calculate_gradient_def Let_def N_def)
qed

lemma read_re_real_parts:
  assumes "map fst p' = map fst p"
  shows "read_re p' = read_re p"
proof
  fix x
  have l: "length p' = length p" using assms by (rule map_eq_imp_length_eq)
  have "fst (p' ! i) = fst (p ! i)" if "i < length p" for i
    using that l assms by (metis nth_map)
  then show "read_re p' x = read_re p x"
    using l by (simp add: read_re_def nth_opt_def)
qed

lemma calculate_gradient_real_parts:
  assumes "map fst p' = map fst p"
  shows "calculate_gradient s p' = calculate_gradient s p"
  by (simp add: calculate_gradient_def gradient_cell_def read_re_real_parts [OF assms])

text \<open>
  C7.  For every cell \<open>(i, j, k)\<close> the gradient is the central difference of the real part
  of the potential with periodic wrap, each component divided by \<open>2 \<cdot> (W / N\<^sub>c)\<close>; at
  \<open>i = 0\<close> the low neighbour in \<open>x\<close> is the cell \<open>(N\<^sub>c - 1, j, k)\<close>; and a potential with
  the same real parts gives the same gradient.
\<close>

theorem calculate_gradient_central_difference:
  assumes "mesh_invariant s"
  shows "\<exists>g. calculate_gradient s (potential_buffer s) = Some g \<and>
     (\<forall>i<unat (number_of_cells s). \<forall>j<unat (number_of_cells s). \<forall>k<unat (number_of_cells s).
        g ! i ! j ! k =
          (let N = unat (number_of_cells s);
               h = 2 * (box_width s / real N);
               \<phi> = (\<lambda>i j k. fst (potential_buffer s ! (k + N * (j + N * i))))
           in ((\<phi> ((i + 1) mod N) j k - \<phi> ((i + N - 1) mod N) j k) / h,
               (\<phi> i ((j + 1) mod N) k - \<phi> i ((j + N - 1) mod N) k) / h,
               (\<phi> i j ((k + 1) mod N) - \<phi> i j ((k + N - 1) mod N)) / h)) \<and>
        fst (g ! 0 ! j ! k) =
          (fst (potential_buffer s ! (k + unat (number_of_cells s) * (j + unat (number_of_cells s) * (1 mod unat (number_of_cells s)))))
           - fst (potential_buffer s ! (k + unat (number_of_cells s) * (j + unat (number_of_cells s) * (unat (number_of_cells s) - 1)))))
          / (2 * (box_width s / real (unat (number_of_cells s))))) \<and>
     (\<forall>p'. map fst p' = map fst (potential_buffer s) \<longrightarrow>
        calculate_gradient s p' = Some g)"
proof -
  define N where "N = unat (number_of_cells s)"
  define g where "g = map (\<lambda>i. map (\<lambda>j. map (\<lambda>k.
             central_difference (potential_buffer s) (box_width s) N i j k) [0..<N]) [0..<N]) [0..<N]"
  have n: "number_of_cells s \<noteq> 0" and c: "unat (number_of_cells s) ^ 3 < 2 ^ 32"
    and len: "length (potential_buffer s) = unat (number_of_cells s) ^ 3"
    using assms by (simp_all add: mesh_invariant_def)
  have N0: "0 < N" using n unat_gt_0 [of "number_of_cells s"] by (simp add: N_def)
  have run: "calculate_gradient s (potential_buffer s) = Some g"
    unfolding g_def N_def by (rule calculate_gradient_eq [OF n c len])
  have cell: "g ! i ! j ! k = central_difference (potential_buffer s) (box_width s) N i j k"
    if "i < N" "j < N" "k < N" for i j k
    using that by (simp add: g_def)
  have low: "(0 + N - 1) mod N = N - 1" using N0 by simp
  have face: "fst (g ! 0 ! j ! k) =
      (fst (potential_buffer s ! (k + N * (j + N * (1 mod N))))
       - fst (potential_buffer s ! (k + N * (j + N * (N - 1))))) / (2 * (box_width s / real N))"
    if "j < N" "k < N" for j k
  proof -
    have hi: "Suc 0 mod N = 1 mod N" by simp
    have "fst (g ! 0 ! j ! k) =
        fst (central_difference (potential_buffer s) (box_width s) N 0 j k)"
      using cell [OF N0 that] by simp
    also have "\<dots> =
      (fst (potential_buffer s ! (k + N * (j + N * (Suc 0 mod N))))
       - fst (potential_buffer s ! (k + N * (j + N * ((0 + N - 1) mod N)))))
        / (2 * (box_width s / real N))"
      by (simp only: central_difference_def phi_def idx_def fst_conv)
    finally show ?thesis by (simp only: low hi)
  qed
  have indep: "calculate_gradient s p' = Some g" if "map fst p' = map fst (potential_buffer s)" for p'
    using calculate_gradient_real_parts [OF that, of s] run by simp
  show ?thesis
    using run cell face indep
    by (auto simp add: N_def [symmetric] Let_def central_difference_def phi_def idx_def)
qed


theorem calculate_gradient_central_difference_witness:
  "mesh_invariant sim3 \<and>
   (\<exists>g. calculate_gradient sim3 (potential_buffer sim3) = Some g \<and>
      fst (g ! 0 ! 0 ! 0) = (9 - 18) / (2 * (10 / 3)))"
proof -
  have h: "mesh_invariant sim3" by (simp add: mesh_invariant_def sim3_def)
  obtain g where g: "calculate_gradient sim3 (potential_buffer sim3) = Some g"
    "\<forall>i<unat (number_of_cells sim3). \<forall>j<unat (number_of_cells sim3). \<forall>k<unat (number_of_cells sim3).
        g ! i ! j ! k =
          (let N = unat (number_of_cells sim3);
               h = 2 * (box_width sim3 / real N);
               \<phi> = (\<lambda>i j k. fst (potential_buffer sim3 ! (k + N * (j + N * i))))
           in ((\<phi> ((i + 1) mod N) j k - \<phi> ((i + N - 1) mod N) j k) / h,
               (\<phi> i ((j + 1) mod N) k - \<phi> i ((j + N - 1) mod N) k) / h,
               (\<phi> i j ((k + 1) mod N) - \<phi> i j ((k + N - 1) mod N)) / h)) \<and>
        fst (g ! 0 ! j ! k) =
          (fst (potential_buffer sim3 ! (k + unat (number_of_cells sim3) * (j + unat (number_of_cells sim3) * (1 mod unat (number_of_cells sim3)))))
           - fst (potential_buffer sim3 ! (k + unat (number_of_cells sim3) * (j + unat (number_of_cells sim3) * (unat (number_of_cells sim3) - 1)))))
          / (2 * (box_width sim3 / real (unat (number_of_cells sim3))))"
    using calculate_gradient_central_difference [OF h] by blast
  have three: "unat (number_of_cells sim3) = 3" by (simp add: sim3_def)
  have "fst (g ! 0 ! 0 ! 0) =
          (fst (potential_buffer sim3 ! (0 + unat (number_of_cells sim3) * (0 + unat (number_of_cells sim3) * (1 mod unat (number_of_cells sim3)))))
           - fst (potential_buffer sim3 ! (0 + unat (number_of_cells sim3) * (0 + unat (number_of_cells sim3) * (unat (number_of_cells sim3) - 1)))))
          / (2 * (box_width sim3 / real (unat (number_of_cells sim3))))"
    using g(2) three by simp
  also have "\<dots> = (9 - 18) / (2 * (10 / 3))"
    unfolding three by (simp add: sim3_def)
  finally show ?thesis using h g(1) by blast
qed

section \<open>Integrator: results\<close>


lemma round_to_even_nonneg: "0 \<le> y \<Longrightarrow> 0 \<le> round_to_even y"
  unfolding round_to_even_def Let_def by auto

lemma ulp_pos: "0 < ulp y"
  by (simp add: ulp_def)

lemma round_double_nonneg: "0 \<le> y \<Longrightarrow> 0 \<le> round_double y"
  using round_to_even_nonneg [of "y / ulp y"] ulp_pos [of y]
  by (simp add: round_double_def)











text \<open>Whenever the loops end, the coordinate is in the unit interval.\<close>

lemma wrap_below_Some: "wrap_below x = Some y \<Longrightarrow> 0 \<le> y"
  by (rule wrap_below.raw_induct [where P = "\<lambda>x y. 0 \<le> y"]) (auto split: if_splits)

lemma wrap_above_Some: "wrap_above x = Some y \<Longrightarrow> y < 1 \<and> (0 \<le> x \<longrightarrow> 0 \<le> y)"
proof (rule wrap_above.raw_induct [where P = "\<lambda>x y. y < 1 \<and> (0 \<le> x \<longrightarrow> 0 \<le> y)"])
  fix f :: "real \<Rightarrow> real option" and x y :: real
  assume ih: "\<And>x y. f x = Some y \<Longrightarrow> y < 1 \<and> (0 \<le> x \<longrightarrow> 0 \<le> y)"
    and st: "(if 1 \<le> x then f (round_double (x - 1)) else Some x) = Some y"
  show "y < 1 \<and> (0 \<le> x \<longrightarrow> 0 \<le> y)"
  proof (cases "1 \<le> x")
    case True
    then have "f (round_double (x - 1)) = Some y" using st by simp
    moreover have "0 \<le> round_double (x - 1)" using True by (simp add: round_double_nonneg)
    ultimately show ?thesis using ih by blast
  next
    case False
    then show ?thesis using st by auto
  qed
qed

lemma boundary_in_unit_interval: "boundary x = Some y \<Longrightarrow> in_unit_interval y"
  using wrap_below_Some wrap_above_Some
  by (fastforce simp: boundary_def bind_eq_Some_conv in_unit_interval_def)








lemma expand_velocity_position: "position (expand_velocity a p) = position p"
  by (cases "velocity p") (simp add: expand_velocity_def)

lemma box_expansion_in_box:
  "\<forall>p\<in>set (particles (particle_collection s)). in_unit_box p \<Longrightarrow>
     \<forall>p\<in>set (particles (particle_collection (box_expansion s))). in_unit_box p"
  by (simp add: box_expansion_def in_unit_box_def expand_velocity_position)

lemma update_particle_Some_in_box:
  assumes "update_particle s g p = Some p'"
  shows "in_unit_box p'"
  using assms
  by (auto simp: update_particle_def bind_eq_Some_conv Let_def in_unit_box_def
        boundary_in_unit_interval split: prod.splits)

lemma those_map_Some_elem:
  "those (map f xs) = Some ys \<Longrightarrow> \<forall>y\<in>set ys. \<exists>x\<in>set xs. f x = Some y"
proof (induction xs arbitrary: ys)
  case Nil
  then show ?case by simp
next
  case (Cons x xs)
  obtain z zs where z: "f x = Some z" "those (map f xs) = Some zs" "ys = z # zs"
    using Cons.prems by (auto split: option.splits)
  have "\<forall>y\<in>set zs. \<exists>x\<in>set xs. f x = Some y" by (rule Cons.IH [OF z(2)])
  then show ?case using z(1,3) by auto
qed

lemma update_particles_in_box:
  assumes "update_particles s = Some s'"
  shows "\<forall>p\<in>set (particles (particle_collection s')). in_unit_box p"
proof -
  obtain g ps where r: "those (map (update_particle s g) (particles (particle_collection s))) = Some ps"
    "s' = s\<lparr>particle_collection := (particle_collection s)\<lparr>particles := ps\<rparr>\<rparr>"
    using assms by (auto simp: update_particles_def bind_eq_Some_conv)
  have "\<forall>p\<in>set ps. in_unit_box p"
    using those_map_Some_elem [OF r(1)] update_particle_Some_in_box by blast
  then show ?thesis by (simp add: r(2))
qed

lemma those_map_length: "those (map f xs) = Some ys \<Longrightarrow> length ys = length xs"
proof (induction xs arbitrary: ys)
  case Nil
  then show ?case by simp
next
  case (Cons x xs)
  then show ?case by (auto split: option.splits)
qed

lemma update_particles_length:
  assumes "update_particles s = Some s'"
  shows "length (particles (particle_collection s')) = length (particles (particle_collection s))"
proof -
  obtain g ps where r: "those (map (update_particle s g) (particles (particle_collection s))) = Some ps"
    "s' = s\<lparr>particle_collection := (particle_collection s)\<lparr>particles := ps\<rparr>\<rparr>"
    using assms by (auto simp: update_particles_def bind_eq_Some_conv)
  show ?thesis using those_map_length [OF r(1)] by (simp add: r(2))
qed













section \<open>Box expansion: results\<close>

text \<open>
  C8.  One box expansion multiplies the width by the expansion factor, divides every
  velocity component of every particle by it and leaves every position and every other
  field as it was; the width stays positive, grows strictly when the factor is above 1 and
  shrinks strictly when it is below 1.  Width and factor are positive, as the constructor
  ensures (a division by a zero factor is not a \<^typ>\<open>real\<close> in C++).
\<close>

theorem box_expansion_effect:
  assumes "0 < box_width s" and "0 < expansion_factor s"
  shows "box_width (box_expansion s) = box_width s * expansion_factor s \<and>
     map velocity (particles (particle_collection (box_expansion s))) =
       map (\<lambda>p. case velocity p of (vx, vy, vz) \<Rightarrow>
              (vx / expansion_factor s, vy / expansion_factor s, vz / expansion_factor s))
           (particles (particle_collection s)) \<and>
     map position (particles (particle_collection (box_expansion s))) =
       map position (particles (particle_collection s)) \<and>
     mass (particle_collection (box_expansion s)) = mass (particle_collection s) \<and>
     box_expansion s =
       s\<lparr> box_width := box_width (box_expansion s),
          particle_collection := particle_collection (box_expansion s) \<rparr> \<and>
     (1 < expansion_factor s \<longrightarrow> box_width s < box_width (box_expansion s)) \<and>
     (expansion_factor s < 1 \<longrightarrow> box_width (box_expansion s) < box_width s) \<and>
     0 < box_width (box_expansion s)"
proof -
  have v: "velocity (expand_velocity a p) =
      (case velocity p of (vx, vy, vz) \<Rightarrow> (vx / a, vy / a, vz / a))" for a p
    by (cases "velocity p") (simp add: expand_velocity_def)
  have "map velocity (particles (particle_collection (box_expansion s))) =
       map (\<lambda>p. case velocity p of (vx, vy, vz) \<Rightarrow>
              (vx / expansion_factor s, vy / expansion_factor s, vz / expansion_factor s))
           (particles (particle_collection s))"
    by (simp add: box_expansion_def v)
  moreover have "map position (particles (particle_collection (box_expansion s))) =
       map position (particles (particle_collection s))"
    by (simp add: box_expansion_def expand_velocity_position)
  moreover have "box_expansion s =
       s\<lparr> box_width := box_width (box_expansion s),
          particle_collection := particle_collection (box_expansion s) \<rparr>"
    by (simp add: box_expansion_def)
  moreover have "1 < expansion_factor s \<longrightarrow> box_width s < box_width s * expansion_factor s"
    using assms by simp
  moreover have "expansion_factor s < 1 \<longrightarrow> box_width s * expansion_factor s < box_width s"
    using assms by simp
  moreover have "0 < box_width s * expansion_factor s"
    using assms by simp
  ultimately show ?thesis by (simp add: box_expansion_def)
qed

theorem box_expansion_effect_witness:
  "0 < box_width sim0 \<and> 0 < expansion_factor sim0 \<and>
   box_width (box_expansion sim0) = 10 * (51 / 50) \<and>
   map velocity (particles (particle_collection (box_expansion sim0))) =
     [(0, 0, 0), (1 / (51 / 50), - 2 / (51 / 50), 0)] \<and>
   map position (particles (particle_collection (box_expansion sim0))) =
     [(1 / 4, 3 / 4, 1 / 2), (0, 1 / 8, 7 / 8)] \<and>
   box_width sim0 < box_width (box_expansion sim0) \<and>
   0 < box_width (sim0\<lparr>expansion_factor := 1 / 2\<rparr>) \<and>
   box_width (box_expansion (sim0\<lparr>expansion_factor := 1 / 2\<rparr>)) < box_width sim0"
proof -
  have h: "0 < box_width sim0" by (simp add: sim0_def)
  have h': "0 < box_width (sim0\<lparr>expansion_factor := 1 / 2\<rparr>)" by (simp add: sim0_def)
  have a: "0 < expansion_factor sim0" "1 < expansion_factor sim0" by (simp_all add: sim0_def)
  have a': "0 < expansion_factor (sim0\<lparr>expansion_factor := 1 / 2\<rparr>)"
    "expansion_factor (sim0\<lparr>expansion_factor := 1 / 2\<rparr>) < 1" by simp_all
  show ?thesis
    using h h' a a' box_expansion_effect [OF h a(1)] box_expansion_effect [OF h' a'(1)]
    by (simp add: sim0_def)
qed

section \<open>The driver loop: one iteration\<close>

text \<open>
  The first two steps of an iteration return, and keep the mesh invariant and the
  particles: an iteration returns when its integrator step does.
\<close>

lemma run_iteration_integrator:
  assumes inv: "mesh_invariant s"
    and box: "\<forall>p\<in>set (particles (particle_collection s)). in_unit_box p"
  shows "\<exists>s2. fill_density_buffer s \<bind> fill_potential_buffer forward_plan backward_plan = Some s2 \<and>
     mesh_invariant s2 \<and> particle_collection s2 = particle_collection s \<and>
     expansion_factor s2 = expansion_factor s \<and> number_of_cells s2 = number_of_cells s \<and>
     box_width s2 = box_width s \<and>
     run_iteration forward_plan backward_plan s =
       update_particles s2 \<bind> (\<lambda>s3. Some (box_expansion s3))"
proof -
  obtain d where d: "fill_density_buffer s = Some (s\<lparr>density_buffer := d\<rparr>)"
      "length d = unat (number_of_cells s) ^ 3"
    using fill_density_buffer_cells [OF inv box] by blast
  define s1 where "s1 = s\<lparr>density_buffer := d\<rparr>"
  have inv1: "mesh_invariant s1" using inv d(2) by (simp add: s1_def mesh_invariant_def)
  obtain k2 where k2: "fill_potential_buffer forward_plan backward_plan s1 =
        Some (s1\<lparr>k_space_buffer := k2,
                potential_buffer := map (backward_plan k2) [0..<unat (number_of_cells s1) ^ 3]\<rparr>)"
      "length k2 = unat (number_of_cells s1) ^ 3"
    using fill_potential_buffer_cells [OF inv1, of forward_plan backward_plan] by blast
  define s2 where "s2 = s1\<lparr>k_space_buffer := k2,
                potential_buffer := map (backward_plan k2) [0..<unat (number_of_cells s1) ^ 3]\<rparr>"
  have inv2: "mesh_invariant s2" using inv1 k2(2) by (simp add: s2_def mesh_invariant_def)
  have "fill_density_buffer s \<bind> fill_potential_buffer forward_plan backward_plan = Some s2"
    using d(1) k2(1) by (simp add: s1_def s2_def)
  moreover have "run_iteration forward_plan backward_plan s =
       update_particles s2 \<bind> (\<lambda>s3. Some (box_expansion s3))"
    using d(1) k2(1) by (simp add: run_iteration_def s1_def s2_def)
  moreover have "particle_collection s2 = particle_collection s"
    "expansion_factor s2 = expansion_factor s" "number_of_cells s2 = number_of_cells s"
    "box_width s2 = box_width s"
    by (simp_all add: s2_def s1_def)
  ultimately show ?thesis using inv2 by blast
qed

text \<open>
  The mesh invariant, a positive expansion factor and positions in the unit box are kept
  by every iteration of the loop that returns.
\<close>

lemma run_iteration_invariant:
  assumes inv: "mesh_invariant s" and a: "0 < expansion_factor s"
    and box: "\<forall>p\<in>set (particles (particle_collection s)). in_unit_box p"
    and run: "run_iteration forward_plan backward_plan s = Some s'"
  shows "mesh_invariant s' \<and> expansion_factor s' = expansion_factor s \<and>
     number_of_cells s' = number_of_cells s \<and>
     box_width s' = box_width s * expansion_factor s \<and>
     length (particles (particle_collection s')) = length (particles (particle_collection s)) \<and>
     (\<forall>p\<in>set (particles (particle_collection s')). in_unit_box p)"
proof -
  obtain s2 where s2: "mesh_invariant s2" "particle_collection s2 = particle_collection s"
      "expansion_factor s2 = expansion_factor s" "number_of_cells s2 = number_of_cells s"
      "box_width s2 = box_width s"
      "run_iteration forward_plan backward_plan s =
         update_particles s2 \<bind> (\<lambda>s3. Some (box_expansion s3))"
    using run_iteration_integrator [OF inv box, of forward_plan backward_plan] by blast
  obtain s3 where s3: "update_particles s2 = Some s3" "s' = box_expansion s3"
    using run unfolding s2(6) by (auto simp: bind_eq_Some_conv)
  have shape: "s3 = s2\<lparr>particle_collection := particle_collection s3\<rparr>"
    using s3(1) by (auto simp: update_particles_def bind_eq_Some_conv)
  have box3: "\<forall>p\<in>set (particles (particle_collection s3)). in_unit_box p"
    by (rule update_particles_in_box [OF s3(1)])
  have len3: "length (particles (particle_collection s3)) = length (particles (particle_collection s))"
    using update_particles_length [OF s3(1)] by (simp add: s2(2))
  have f: "expansion_factor s3 = expansion_factor s2" "number_of_cells s3 = number_of_cells s2"
    "box_width s3 = box_width s2" "length (density_buffer s3) = length (density_buffer s2)"
    "length (potential_buffer s3) = length (potential_buffer s2)"
    "length (k_space_buffer s3) = length (k_space_buffer s2)"
    by (subst shape, simp)+
  have inv3: "mesh_invariant (box_expansion s3)"
    using s2(1) a f s2(3,4,5) by (simp add: mesh_invariant_def box_expansion_def)
  show ?thesis
    using inv3 f(1,2,3) s2(3,4,5) len3 box_expansion_in_box [OF box3]
    by (simp add: s3(2) box_expansion_def)
qed

section \<open>The sweep driver: results\<close>

lemma concat_single_at:
  "concat (map (\<lambda>i. if i = r then [m] else []) [a..<b]) = (if a \<le> r \<and> r < b then [m] else [])"
  by (induction b) auto

lemma MPI_Recv_coordinator_sends:
  assumes "1 \<le> r" "r < num_proc"
  shows "MPI_Recv (coordinator_sends a_min a_max num_proc) r 0 = Some a_min"
    and "MPI_Recv (coordinator_sends a_min a_max num_proc) r 1 =
           Some (expansion_factor_step_of a_min a_max num_proc)"
proof -
  have f0: "filter (\<lambda>m. dest m = r \<and> tag m = 0) (coordinator_sends a_min a_max num_proc) =
      concat (map (\<lambda>i. if i = r then [\<lparr> dest = r, tag = 0, payload = a_min \<rparr>] else []) [1..<num_proc])"
    unfolding coordinator_sends_def filter_concat map_map
    by (rule arg_cong [where f = concat], rule map_cong) auto
  have f1: "filter (\<lambda>m. dest m = r \<and> tag m = 1) (coordinator_sends a_min a_max num_proc) =
      concat (map (\<lambda>i. if i = r then [\<lparr> dest = r, tag = 1,
          payload = expansion_factor_step_of a_min a_max num_proc \<rparr>] else []) [1..<num_proc])"
    unfolding coordinator_sends_def filter_concat map_map
    by (rule arg_cong [where f = concat], rule map_cong) auto
  show "MPI_Recv (coordinator_sends a_min a_max num_proc) r 0 = Some a_min"
    unfolding MPI_Recv_def f0 concat_single_at using assms by simp
  show "MPI_Recv (coordinator_sends a_min a_max num_proc) r 1 =
           Some (expansion_factor_step_of a_min a_max num_proc)"
    unfolding MPI_Recv_def f1 concat_single_at using assms by simp
qed

lemma peer_expansion_factor_eq:
  assumes "1 \<le> r" "r < num_proc"
  shows "peer_expansion_factor (coordinator_sends a_min a_max num_proc) r =
     Some (expansion_factor_step_of a_min a_max num_proc + real r * a_min)"
  using MPI_Recv_coordinator_sends [OF assms, of a_min a_max]
  by (simp add: peer_expansion_factor_def)

lemma coordinator_expansion_factor_eq:
  "coordinator_expansion_factor a_min a_max num_proc = (if num_proc = 1 then None else Some a_min)"
  by (simp add: coordinator_expansion_factor_def)

text \<open>
  C1.  The claim: tag 0 carries the minimum, tag 1 the step, and the peer of rank \<open>r\<close>
  runs with \<open>a_min + r \<cdot> step\<close>.  With four workers, a minimum of 1 and a maximum of 1.06
  the step is 0.02 and rank 0 files the result of rank 2 under 1.04; the peer of rank 2
  reads tag 0 as the step and tag 1 as the minimum and runs with \<open>0.02 + 2 \<cdot> 1 = 2.02\<close>.
\<close>

theorem peer_expansion_factor_rank_2:
  "MPI_Recv (coordinator_sends 1 (53 / 50) 4) 2 0 = Some 1 \<and>
   MPI_Recv (coordinator_sends 1 (53 / 50) 4) 2 1 = Some (1 / 50) \<and>
   coordinator_label 1 (53 / 50) 4 2 = 26 / 25 \<and>
   peer_expansion_factor (coordinator_sends 1 (53 / 50) 4) 2 = Some (101 / 50)"
proof -
  have s: "expansion_factor_step_of 1 (53 / 50) 4 = 1 / 50"
    by (simp add: expansion_factor_step_of_def)
  have r: "(1::nat) \<le> 2" "(2::nat) < 4" by simp_all
  show ?thesis
    using MPI_Recv_coordinator_sends [OF r, of 1 "53 / 50"]
      peer_expansion_factor_eq [OF r, of 1 "53 / 50"]
    by (simp add: s coordinator_label_def)
qed

section \<open>Nested loops and the index convention\<close>

lemma for_each_append:
  "for_each body (xs @ ys) st =
     (case for_each body xs st of None \<Rightarrow> None | Some st' \<Rightarrow> for_each body ys st')"
  by (induction xs arbitrary: st) (simp_all split: option.splits)

lemma for_each_map: "for_each body (map f xs) st = for_each (\<lambda>x. body (f x)) xs st"
  by (induction xs arbitrary: st) (simp_all split: option.splits)

lemma for_each_product:
  "for_each (\<lambda>x. for_each (body x) ys) xs st =
     for_each (\<lambda>(x, y). body x y) (List.product xs ys) st"
proof (induction xs arbitrary: st)
  case Nil
  then show ?case by simp
next
  case (Cons x xs)
  have "for_each (\<lambda>(x, y). body x y) (map (Pair x) ys) st = for_each (body x) ys st"
    by (simp add: for_each_map)
  then show ?case
    by (simp add: for_each_append Cons.IH split: option.splits)
qed

lemma for_each_write_at:
  assumes body: "\<And>x st. x \<in> set xs \<Longrightarrow> length st = m \<Longrightarrow>
      body x st = Some (st[g x := f x (st ! g x)])"
  shows "distinct xs \<Longrightarrow> inj_on g (set xs) \<Longrightarrow> \<forall>x\<in>set xs. g x < m \<Longrightarrow> length st = m \<Longrightarrow>
     \<exists>st'. for_each body xs st = Some st' \<and> length st' = m \<and>
        (\<forall>x\<in>set xs. st' ! g x = f x (st ! g x)) \<and>
        (\<forall>y<m. y \<notin> g ` set xs \<longrightarrow> st' ! y = st ! y)"
  using body
proof (induction xs arbitrary: st)
  case Nil
  then show ?case by simp
next
  case (Cons x xs)
  define st1 where "st1 = st[g x := f x (st ! g x)]"
  have step: "body x st = Some st1"
    unfolding st1_def using Cons.prems(4) by (intro Cons.prems(5)) simp_all
  have len1: "length st1 = m" using Cons.prems(4) by (simp add: st1_def)
  have d: "distinct xs" and inj: "inj_on g (set xs)" and b: "\<forall>x\<in>set xs. g x < m"
    and x: "x \<notin> set xs" "g x < m"
    using Cons.prems(1,2,3) by (simp_all add: inj_on_def)
  have fresh: "g x \<noteq> g z" if "z \<in> set xs" for z
    using Cons.prems(2) that x(1) by (auto simp: inj_on_def)
  have body': "\<And>x st. x \<in> set xs \<Longrightarrow> length st = m \<Longrightarrow>
      body x st = Some (st[g x := f x (st ! g x)])"
    using Cons.prems(5) by simp
  obtain st' where st': "for_each body xs st1 = Some st'" "length st' = m"
      "\<forall>z\<in>set xs. st' ! g z = f z (st1 ! g z)"
      "\<forall>y<m. y \<notin> g ` set xs \<longrightarrow> st' ! y = st1 ! y"
    using Cons.IH [OF d inj b len1 body'] by blast
  have run: "for_each body (x # xs) st = Some st'" using step st'(1) by simp
  have hit: "st' ! g z = f z (st ! g z)" if "z \<in> set (x # xs)" for z
  proof (cases "z = x")
    case True
    have "g x \<notin> g ` set xs" using fresh by auto
    then have "st' ! g x = st1 ! g x" using st'(4) x(2) by simp
    then show ?thesis using True x(2) Cons.prems(4) by (simp add: st1_def)
  next
    case False
    then have z: "z \<in> set xs" using that by simp
    then have "st1 ! g z = st ! g z" using fresh [OF z] by (simp add: st1_def)
    then show ?thesis using st'(3) z by simp
  qed
  have miss: "st' ! y = st ! y" if "y < m" "y \<notin> g ` set (x # xs)" for y
  proof -
    have "y \<noteq> g x" and "y \<notin> g ` set xs" using that(2) by auto
    then show ?thesis using st'(4) that(1) by (simp add: st1_def)
  qed
  show ?case using run st'(2) hit miss by blast
qed

lemma idx_decode:
  assumes "j < N" "k < N"
  shows "idx N i j k mod N = k" and "(idx N i j k div N) mod N = j" and "idx N i j k div N\<^sup>2 = i"
proof -
  have N0: "0 < N" using assms by simp
  show "idx N i j k mod N = k" using assms by (simp add: idx_def)
  have d: "idx N i j k div N = j + N * i" using assms by (simp add: idx_def)
  show "(idx N i j k div N) mod N = j" using assms by (simp add: d)
  have "idx N i j k div N\<^sup>2 = (idx N i j k div N) div N"
    by (simp add: power2_eq_square div_mult2_eq)
  then show "idx N i j k div N\<^sup>2 = i" using assms by (simp add: d)
qed

lemma idx_inject:
  assumes "j < N" "k < N" "j' < N" "k' < N" "idx N i j k = idx N i' j' k'"
  shows "i = i' \<and> j = j' \<and> k = k'"
  using idx_decode [OF assms(1,2), of i] idx_decode [OF assms(3,4), of i'] assms(5)
  by simp

lemma idx_encode:
  assumes "0 < N"
  shows "idx N (y div N\<^sup>2) ((y div N) mod N) (y mod N) = y"
proof -
  have "y div N\<^sup>2 = (y div N) div N" by (simp add: power2_eq_square div_mult2_eq)
  then show ?thesis by (simp add: idx_def)
qed

lemma idx_bound:
  assumes "i < N" "j < N" "k < N"
  shows "idx N i j k < N ^ 3"
proof -
  have "j + N * i < N * N"
  proof -
    have "j + N * i < N + N * i" using assms by simp
    also have "\<dots> = N * Suc i" by simp
    also have "\<dots> \<le> N * N" using assms by (intro mult_le_mono) simp_all
    finally show ?thesis .
  qed
  then have "Suc (j + N * i) \<le> N * N" by simp
  have "k + N * (j + N * i) < N + N * (j + N * i)" using assms by simp
  also have "\<dots> = N * Suc (j + N * i)" by simp
  also have "\<dots> \<le> N * (N * N)" using \<open>Suc (j + N * i) \<le> N * N\<close> by (intro mult_le_mono) simp_all
  finally show ?thesis by (simp add: idx_def power3_eq_cube)
qed

section \<open>Deposition by counting: the counts\<close>

lemma vector_index_in_range:
  assumes "in_unit_interval p" "n \<noteq> 0"
  shows "vector_index p n = Some (cell_number n p)" and "cell_number n p < unat n"
proof -
  obtain i where i: "cell_coordinate p n = Some i" "unat i = nat \<lfloor>p * real (unat n)\<rfloor>"
      "unat i < unat n"
    using cell_coordinate_in_range [OF assms] by blast
  show lt: "cell_number n p < unat n" using i(2,3) by (simp add: cell_number_def)
  have p: "0 \<le> p" using assms(1) by (simp add: in_unit_interval_def)
  have "0 \<le> real (unat n)" by (rule of_nat_0_le_iff)
  then have f0: "0 \<le> \<lfloor>p * real (unat n)\<rfloor>" using p by simp
  have "unat n < 4294967296" using unsigned_less [of n] by simp
  then have "nat \<lfloor>p * real (unat n)\<rfloor> < 18446744073709551616"
    using lt by (simp add: cell_number_def)
  then have "\<lfloor>p * real (unat n)\<rfloor> < 18446744073709551616" using f0 by linarith
  then show "vector_index p n = Some (cell_number n p)"
    unfolding vector_index_def Let_def cell_number_def using f0 by simp
qed

lemma cubic_update:
  fixes v :: 'a
  assumes "cubic N c" "i < N" "j < N" "k < N"
  defines "c' \<equiv> c[i := (c ! i)[j := (c ! i ! j)[k := v]]]"
  shows "cubic N c'"
    and "\<And>i' j' k'. i' < N \<Longrightarrow> j' < N \<Longrightarrow> k' < N \<Longrightarrow>
           c' ! i' ! j' ! k' = (if i' = i \<and> j' = j \<and> k' = k then v else c ! i' ! j' ! k')"
proof -
  have l: "length c = N" "\<And>i. i < N \<Longrightarrow> length (c ! i) = N"
    "\<And>i j. i < N \<Longrightarrow> j < N \<Longrightarrow> length (c ! i ! j) = N"
    using assms(1) by (simp_all add: cubic_def)
  show "cubic N c'"
    unfolding cubic_def c'_def using l assms(2,3,4) by (simp add: nth_list_update)
  show "c' ! i' ! j' ! k' = (if i' = i \<and> j' = j \<and> k' = k then v else c ! i' ! j' ! k')"
    if "i' < N" "j' < N" "k' < N" for i' j' k'
    unfolding c'_def using l assms(2,3,4) that by (simp add: nth_list_update)
qed

lemma bin_particle_eq:
  assumes n: "n \<noteq> 0" and p: "in_unit_box p" and c: "cubic (unat n) counts"
  shows "\<exists>i j k. i < unat n \<and> j < unat n \<and> k < unat n \<and> in_cell n i j k p \<and>
     bin_particle n p counts =
       Some (counts[i := (counts ! i)[j := (counts ! i ! j)[k := counts ! i ! j ! k + 1]]])"
proof -
  obtain px py pz where pos: "position p = (px, py, pz)" by (cases "position p") auto
  have u: "in_unit_interval px" "in_unit_interval py" "in_unit_interval pz"
    using p by (simp_all add: in_unit_box_def pos)
  define i j k where "i = cell_number n px" and "j = cell_number n py" and "k = cell_number n pz"
  have v: "vector_index px n = Some i" "vector_index py n = Some j" "vector_index pz n = Some k"
    and b: "i < unat n" "j < unat n" "k < unat n"
    using vector_index_in_range [OF u(1) n] vector_index_in_range [OF u(2) n]
      vector_index_in_range [OF u(3) n]
    by (simp_all add: i_def j_def k_def)
  have l: "length counts = unat n" "length (counts ! i) = unat n" "length (counts ! i ! j) = unat n"
    using c b by (simp_all add: cubic_def)
  have "bin_particle n p counts =
       Some (counts[i := (counts ! i)[j := (counts ! i ! j)[k := counts ! i ! j ! k + 1]]])"
    using b l by (simp add: bin_particle_def pos v nth_opt_def)
  moreover have "in_cell n i j k p" by (simp add: in_cell_def pos i_def j_def k_def)
  ultimately show ?thesis using b by blast
qed

lemma in_cell_unique:
  "in_cell n i j k p \<Longrightarrow> in_cell n i' j' k' p \<longleftrightarrow> i' = i \<and> j' = j \<and> k' = k"
  by (cases "position p") (auto simp: in_cell_def)

lemma for_each_bin_particle:
  assumes n: "n \<noteq> 0"
  shows "cubic (unat n) counts \<Longrightarrow> \<forall>p\<in>set ps. in_unit_box p \<Longrightarrow>
     \<exists>c'. for_each (bin_particle n) ps counts = Some c' \<and> cubic (unat n) c' \<and>
       (\<forall>i<unat n. \<forall>j<unat n. \<forall>k<unat n.
          c' ! i ! j ! k = counts ! i ! j ! k + of_nat (length (filter (in_cell n i j k) ps)))"
proof (induction ps arbitrary: counts)
  case Nil
  then show ?case by simp
next
  case (Cons p ps)
  have box: "in_unit_box p" and rest: "\<forall>p\<in>set ps. in_unit_box p" using Cons.prems(2) by simp_all
  obtain i j k where b: "i < unat n" "j < unat n" "k < unat n" and cell: "in_cell n i j k p"
    and step: "bin_particle n p counts =
       Some (counts[i := (counts ! i)[j := (counts ! i ! j)[k := counts ! i ! j ! k + 1]]])"
    using bin_particle_eq [OF n box Cons.prems(1)] by blast
  define c1 where "c1 = counts[i := (counts ! i)[j := (counts ! i ! j)[k := counts ! i ! j ! k + 1]]]"
  have c1: "cubic (unat n) c1"
    unfolding c1_def by (rule cubic_update(1) [OF Cons.prems(1) b])
  have c1n: "c1 ! i' ! j' ! k' =
      (if i' = i \<and> j' = j \<and> k' = k then counts ! i ! j ! k + 1 else counts ! i' ! j' ! k')"
    if "i' < unat n" "j' < unat n" "k' < unat n" for i' j' k'
    unfolding c1_def by (rule cubic_update(2) [OF Cons.prems(1) b that])
  obtain c' where c': "for_each (bin_particle n) ps c1 = Some c'" "cubic (unat n) c'"
      "\<forall>i<unat n. \<forall>j<unat n. \<forall>k<unat n.
          c' ! i ! j ! k = c1 ! i ! j ! k + of_nat (length (filter (in_cell n i j k) ps))"
    using Cons.IH [OF c1 rest] by blast
  have run: "for_each (bin_particle n) (p # ps) counts = Some c'"
    using step c'(1) by (simp add: c1_def)
  have "c' ! i' ! j' ! k' =
      counts ! i' ! j' ! k' + of_nat (length (filter (in_cell n i' j' k') (p # ps)))"
    if t: "i' < unat n" "j' < unat n" "k' < unat n" for i' j' k'
  proof -
    have "c' ! i' ! j' ! k' = c1 ! i' ! j' ! k' + of_nat (length (filter (in_cell n i' j' k') ps))"
      using c'(3) t by blast
    then show ?thesis
      using c1n [OF t] in_cell_unique [OF cell, of i' j' k'] by auto
  qed
  then show ?case using run c'(2) by blast
qed

section \<open>Deposition by counting: one cell\<close>

lemma bin_particles_eq:
  assumes n: "number_of_cells s \<noteq> 0"
    and box: "\<forall>p\<in>set (particles (particle_collection s)). in_unit_box p"
  shows "\<exists>c. bin_particles s = Some c \<and> cubic (unat (number_of_cells s)) c \<and>
     (\<forall>i<unat (number_of_cells s). \<forall>j<unat (number_of_cells s). \<forall>k<unat (number_of_cells s).
        c ! i ! j ! k =
          of_nat (length (filter (in_cell (number_of_cells s) i j k) (particles (particle_collection s)))))"
proof -
  define N where "N = unat (number_of_cells s)"
  define z :: "u32 list list list" where "z = replicate N (replicate N (replicate N 0))"
  have cz: "cubic N z" by (simp add: cubic_def z_def)
  have z0: "z ! i ! j ! k = 0" if "i < N" "j < N" "k < N" for i j k
    using that by (simp add: z_def)
  obtain c where c: "for_each (bin_particle (number_of_cells s)) (particles (particle_collection s)) z = Some c"
      "cubic N c"
      "\<forall>i<N. \<forall>j<N. \<forall>k<N. c ! i ! j ! k =
          z ! i ! j ! k + of_nat (length (filter (in_cell (number_of_cells s) i j k) (particles (particle_collection s))))"
    using for_each_bin_particle [OF n, of z "particles (particle_collection s)"] cz box
    unfolding N_def by blast
  have "bin_particles s = Some c"
    using c(1) by (simp add: bin_particles_def Let_def N_def z_def)
  moreover have "\<forall>i<N. \<forall>j<N. \<forall>k<N. c ! i ! j ! k =
          of_nat (length (filter (in_cell (number_of_cells s) i j k) (particles (particle_collection s))))"
    using c(3) z0 by simp
  ultimately show ?thesis using c(2) unfolding N_def by blast
qed

lemma write_density_eq:
  assumes n: "number_of_cells s \<noteq> 0" and c: "unat (number_of_cells s) ^ 3 < 2 ^ 32"
    and cub: "cubic (unat (number_of_cells s)) counts"
    and len: "length buf = unat (number_of_cells s) ^ 3"
    and i: "i < unat (number_of_cells s)" and j: "j < unat (number_of_cells s)"
    and k: "k < unat (number_of_cells s)"
  defines "t \<equiv> idx (unat (number_of_cells s)) i j k"
  shows "write_density s counts i j k buf =
     Some (buf[t := (real (unat (counts ! i ! j ! k)) * single_density s, snd (buf ! t))])"
proof -
  have N2048: "unat (number_of_cells s) < 2048" by (rule cells_below_2048 [OF c])
  have ui: "unat (of_nat i :: u32) = i" and uj: "unat (of_nat j :: u32) = j"
    and uk: "unat (of_nat k :: u32) = k"
    using i j k N2048 by (simp_all add: of_nat_unat_small)
  have bi: "unat (of_nat i :: u32) < unat (number_of_cells s)"
    and bj: "unat (of_nat j :: u32) < unat (number_of_cells s)"
    and bk: "unat (of_nat k :: u32) < unat (number_of_cells s)"
    using i j k ui uj uk by simp_all
  have f: "unat (flat_index (number_of_cells s) (of_nat i) (of_nat j) (of_nat k)) = t"
    using flat_index_unat(1) [OF c bi bj bk] by (simp add: t_def idx_def ui uj uk)
  have lt: "t < length buf"
    using flat_index_unat(2) [OF c bi bj bk] len by (simp add: t_def idx_def ui uj uk)
  have l: "length counts = unat (number_of_cells s)" "length (counts ! i) = unat (number_of_cells s)"
    "length (counts ! i ! j) = unat (number_of_cells s)"
    using cub i j by (simp_all add: cubic_def)
  have look: "lookup3 counts (of_nat i) (of_nat j) (of_nat k) = Some (counts ! i ! j ! k)"
    using l i j k by (simp add: lookup3_def nth_opt_def ui uj uk)
  have sd: "real (unat (counts ! i ! j ! k)) * mass (particle_collection s)
        / (box_width s / real (unat (number_of_cells s)) * (box_width s / real (unat (number_of_cells s)))
            * (box_width s / real (unat (number_of_cells s))))
      = real (unat (counts ! i ! j ! k)) * single_density s"
    by (simp add: single_density_def Let_def)
  show ?thesis
    unfolding write_density_def Let_def f look
    using lt by (simp only: bind.bind_lunit nth_opt_def write_opt_def if_True sd)
qed

section \<open>Deposition by counting: the buffer\<close>

lemma fill_density_buffer_binned_cells:
  assumes inv: "mesh_invariant s"
    and box: "\<forall>p\<in>set (particles (particle_collection s)). in_unit_box p"
    and np: "length (particles (particle_collection s)) < 2 ^ 32"
  shows "\<exists>d. fill_density_buffer_binned s = Some (s\<lparr>density_buffer := d\<rparr>) \<and>
      length d = unat (number_of_cells s) ^ 3 \<and>
      (\<forall>y<unat (number_of_cells s) ^ 3. d ! y =
         (real (length (filter (\<lambda>p. target_cell (number_of_cells s) p = y)
                   (particles (particle_collection s)))) * single_density s,
          snd (density_buffer s ! y)))"
proof -
  define N where "N = unat (number_of_cells s)"
  define ps where "ps = particles (particle_collection s)"
  define cells where "cells = [0..<N]"
  define xs where "xs = List.product (List.product cells cells) cells"
  have n: "number_of_cells s \<noteq> 0" and c: "unat (number_of_cells s) ^ 3 < 2 ^ 32"
    and len: "length (density_buffer s) = N ^ 3"
    using inv by (simp_all add: mesh_invariant_def N_def)
  have N0: "0 < N" using n unat_gt_0 [of "number_of_cells s"] by (simp add: N_def)
  obtain counts where counts: "bin_particles s = Some counts" "cubic N counts"
      "\<forall>i<N. \<forall>j<N. \<forall>k<N. counts ! i ! j ! k =
          of_nat (length (filter (in_cell (number_of_cells s) i j k) ps))"
    using bin_particles_eq [OF n box] unfolding N_def ps_def by blast
  define g :: "(nat \<times> nat) \<times> nat \<Rightarrow> nat" where "g = (\<lambda>((i, j), k). idx N i j k)"
  define f :: "(nat \<times> nat) \<times> nat \<Rightarrow> fftw_complex \<Rightarrow> fftw_complex"
    where "f = (\<lambda>((i, j), k) c. (real (unat (counts ! i ! j ! k)) * single_density s, snd c))"
  define body where "body = (\<lambda>((i, j), k). write_density s counts i j k)"
  have mem: "((i, j), k) \<in> set xs \<longleftrightarrow> i < N \<and> j < N \<and> k < N" for i j k
    by (auto simp: xs_def cells_def)
  have flat: "for_each (\<lambda>i. for_each (\<lambda>j. for_each (\<lambda>k. write_density s counts i j k) cells) cells) cells
        (density_buffer s) = for_each body xs (density_buffer s)"
  proof -
    have "for_each (\<lambda>i. for_each (\<lambda>j. for_each (\<lambda>k. write_density s counts i j k) cells) cells) cells
        (density_buffer s) =
      for_each (\<lambda>(i, j). for_each (\<lambda>k. write_density s counts i j k) cells)
        (List.product cells cells) (density_buffer s)"
      by (rule for_each_product)
    also have "\<dots> = for_each (\<lambda>x. for_each (\<lambda>k. case x of (i, j) \<Rightarrow> write_density s counts i j k) cells)
        (List.product cells cells) (density_buffer s)"
      by (simp only: case_prod_unfold)
    also have "\<dots> = for_each (\<lambda>(x, k). case x of (i, j) \<Rightarrow> write_density s counts i j k)
        (List.product (List.product cells cells) cells) (density_buffer s)"
      by (rule for_each_product)
    finally show ?thesis by (simp only: body_def xs_def case_prod_unfold)
  qed
  have step: "body x st = Some (st[g x := f x (st ! g x)])"
    if "x \<in> set xs" "length st = N ^ 3" for x st
  proof -
    obtain i j k where x: "x = ((i, j), k)" by (metis surj_pair)
    have b: "i < N" "j < N" "k < N" using that(1) mem by (simp_all add: x)
    show ?thesis
      using write_density_eq [OF n c, of counts st i j k] counts(2) that(2) b
      by (simp add: x body_def g_def f_def N_def)
  qed
  have dist: "distinct xs" by (simp add: xs_def cells_def distinct_product)
  have inj: "inj_on g (set xs)"
  proof (rule inj_onI)
    fix x y assume xy: "x \<in> set xs" "y \<in> set xs" "g x = g y"
    obtain i j k where x: "x = ((i, j), k)" by (metis surj_pair)
    obtain i' j' k' where y: "y = ((i', j'), k')" by (metis surj_pair)
    have "i < N" "j < N" "k < N" "i' < N" "j' < N" "k' < N"
      using xy(1,2) mem by (simp_all add: x y)
    then show "x = y"
      using idx_inject [of j N k j' k' i i'] xy(3) by (simp add: x y g_def)
  qed
  have bound: "\<forall>x\<in>set xs. g x < N ^ 3"
  proof
    fix x assume "x \<in> set xs"
    moreover obtain i j k where x: "x = ((i, j), k)" by (metis surj_pair)
    ultimately show "g x < N ^ 3" using mem idx_bound [of i N j k] by (simp add: g_def)
  qed
  obtain d where d: "for_each body xs (density_buffer s) = Some d" "length d = N ^ 3"
      "\<forall>x\<in>set xs. d ! g x = f x (density_buffer s ! g x)"
    using for_each_write_at [of xs "N ^ 3" body g f "density_buffer s", OF step dist inj bound len]
    by blast
  have run: "fill_density_buffer_binned s = Some (s\<lparr>density_buffer := d\<rparr>)"
    using flat d(1)
    by (simp add: fill_density_buffer_binned_def Let_def counts(1) cells_def N_def)
  have cell: "d ! y =
         (real (length (filter (\<lambda>p. target_cell (number_of_cells s) p = y) ps)) * single_density s,
          snd (density_buffer s ! y))" if y: "y < N ^ 3" for y
  proof -
    define i j k where "i = y div N\<^sup>2" and "j = (y div N) mod N" and "k = y mod N"
    have yi: "idx N i j k = y" unfolding i_def j_def k_def by (rule idx_encode [OF N0])
    have bj: "j < N" and bk: "k < N" using N0 by (simp_all add: j_def k_def)
    have "y < N * N * N" using y by (simp add: power3_eq_cube)
    then have bi: "i < N"
      using N0 by (simp add: i_def power2_eq_square less_mult_imp_div_less mult.commute)
    have x: "((i, j), k) \<in> set xs" using mem bi bj bk by simp
    have "d ! g ((i, j), k) = f ((i, j), k) (density_buffer s ! g ((i, j), k))"
      using d(3) x by blast
    then have dy: "d ! y = (real (unat (counts ! i ! j ! k)) * single_density s, snd (density_buffer s ! y))"
      by (simp add: g_def f_def yi)
    have cnt: "counts ! i ! j ! k = of_nat (length (filter (in_cell (number_of_cells s) i j k) ps))"
      using counts(3) bi bj bk by blast
    have "length (filter (in_cell (number_of_cells s) i j k) ps) \<le> length ps" by simp
    moreover have "length ps < 4294967296" using np by (simp add: ps_def)
    ultimately have "length (filter (in_cell (number_of_cells s) i j k) ps) < 4294967296"
      by (rule le_less_trans)
    then have ucnt: "unat (counts ! i ! j ! k) = length (filter (in_cell (number_of_cells s) i j k) ps)"
      by (simp add: cnt of_nat_unat_small)
    have same: "in_cell (number_of_cells s) i j k p \<longleftrightarrow> target_cell (number_of_cells s) p = y"
      if p: "p \<in> set ps" for p
    proof -
      obtain px py pz where pos: "position p = (px, py, pz)" by (cases "position p") auto
      have "in_unit_box p" using box p by (simp add: ps_def)
      then have u: "in_unit_interval px" "in_unit_interval py" "in_unit_interval pz"
        by (simp_all add: in_unit_box_def pos)
      have b: "cell_number (number_of_cells s) py < N" "cell_number (number_of_cells s) pz < N"
        using vector_index_in_range(2) [OF u(2) n] vector_index_in_range(2) [OF u(3) n]
        by (simp_all add: N_def)
      have "target_cell (number_of_cells s) p = y \<longleftrightarrow>
          idx N (cell_number (number_of_cells s) px) (cell_number (number_of_cells s) py)
            (cell_number (number_of_cells s) pz) = idx N i j k"
        using yi by (simp add: target_cell_def pos N_def)
      also have "\<dots> \<longleftrightarrow> cell_number (number_of_cells s) px = i \<and>
          cell_number (number_of_cells s) py = j \<and> cell_number (number_of_cells s) pz = k"
        using idx_inject [OF b bj bk] by auto
      finally show ?thesis by (simp add: in_cell_def pos)
    qed
    have "filter (in_cell (number_of_cells s) i j k) ps =
        filter (\<lambda>p. target_cell (number_of_cells s) p = y) ps"
      by (rule filter_cong) (simp_all add: same)
    then show ?thesis using dy ucnt by simp
  qed
  show ?thesis using run d(2) cell unfolding N_def ps_def by blast
qed

section \<open>The two depositions\<close>

text \<open>
  C10.  The two depositions agree: on a state that meets the mesh invariant, with every
  particle in the unit box, fewer than \<open>2\<^sup>3\<^sup>2\<close> particles (their number is a \<^verbatim>\<open>uint\<close>) and
  a density buffer whose imaginary parts are zero (the constructor zeroes them and neither
  version writes them), counting the particles of each cell and assigning
  \<open>count \<cdot> mass / (W / N\<^sub>c)\<^sup>3\<close> gives the same state as adding \<open>mass / (W / N\<^sub>c)\<^sup>3\<close> for
  each particle, and both return.
\<close>

theorem fill_density_buffer_versions_agree:
  assumes "mesh_invariant s"
    and "\<forall>p\<in>set (particles (particle_collection s)). in_unit_box p"
    and "length (particles (particle_collection s)) < 2 ^ 32"
    and "\<forall>c\<in>set (density_buffer s). snd c = 0"
  shows "\<exists>s'. fill_density_buffer_binned s = Some s' \<and> fill_density_buffer s = Some s'"
proof -
  define N3 where "N3 = unat (number_of_cells s) ^ 3"
  define cnt where "cnt = (\<lambda>y. real (length (filter (\<lambda>p. target_cell (number_of_cells s) p = y)
                   (particles (particle_collection s)))))"
  obtain d where d: "fill_density_buffer s = Some (s\<lparr>density_buffer := d\<rparr>)"
      "length d = N3" "\<forall>y<N3. d ! y = (cnt y * single_density s, 0)"
    using fill_density_buffer_cells [OF assms(1,2)] unfolding N3_def cnt_def by blast
  obtain d' where d': "fill_density_buffer_binned s = Some (s\<lparr>density_buffer := d'\<rparr>)"
      "length d' = N3" "\<forall>y<N3. d' ! y = (cnt y * single_density s, snd (density_buffer s ! y))"
    using fill_density_buffer_binned_cells [OF assms(1,2,3)] unfolding N3_def cnt_def by blast
  have len: "length (density_buffer s) = N3"
    using assms(1) by (simp add: mesh_invariant_def N3_def)
  have "d' = d"
  proof (rule nth_equalityI)
    show "length d' = length d" using d(2) d'(2) by simp
  next
    fix y assume "y < length d'"
    then have y: "y < N3" using d'(2) by simp
    then have "density_buffer s ! y \<in> set (density_buffer s)" using len by simp
    then have "snd (density_buffer s ! y) = 0" using assms(4) by blast
    then show "d' ! y = d ! y" using d(3) d'(3) y by simp
  qed
  then show ?thesis using d(1) d'(1) by simp
qed

theorem fill_density_buffer_versions_agree_witness:
  "mesh_invariant sim0 \<and>
   list_all in_unit_box (particles (particle_collection sim0)) \<and>
   length (particles (particle_collection sim0)) < 2 ^ 32 \<and>
   list_all (\<lambda>c. snd c = 0) (density_buffer sim0) \<and>
   (\<exists>s'. fill_density_buffer_binned sim0 = Some s' \<and> fill_density_buffer sim0 = Some s')"
proof -
  have h1: "mesh_invariant sim0"
    by (simp add: mesh_invariant_def sim0_def)
  have h2: "\<forall>p\<in>set (particles (particle_collection sim0)). in_unit_box p"
    by (simp add: sim0_def in_unit_box_def in_unit_interval_def)
  have h3: "length (particles (particle_collection sim0)) < 2 ^ 32"
    by (simp add: sim0_def)
  have h4: "\<forall>c\<in>set (density_buffer sim0). snd c = 0"
    by (simp add: sim0_def)
  show ?thesis
    using h1 h2 h3 h4 fill_density_buffer_versions_agree [OF h1 h2 h3 h4]
    unfolding list_all_iff by blast
qed

section \<open>Deposition outside the mesh invariant\<close>

text \<open>
  From 1626 cells on, the \<^verbatim>\<open>uint\<close> product \<^verbatim>\<open>buffer_length\<close> of the constructor is below
  \<open>N\<^sub>c\<^sup>3\<close>; up to 1625 cells it is \<open>N\<^sub>c\<^sup>3\<close> (\<open>total_size_unat\<close>, \<open>cube_below\<close>).
\<close>

lemma buffer_length_wraps:
  assumes "1626 \<le> unat (n::u32)"
  shows "unat (n * n * n) < unat n ^ 3"
proof -
  have "(1626::nat) ^ 3 \<le> unat n ^ 3" using assms by (rule power_mono) simp
  then have "4294967296 \<le> unat n ^ 3" by simp
  moreover have "unat (n * n * n) < 4294967296" using unsigned_less [of "n * n * n"] by simp
  ultimately show ?thesis by linarith
qed

lemma memset_cells_1626: "memset_cells 1626 = 4298942376"
  by (simp add: memset_cells_def)

text \<open>
  C9.  The claim: for a particle in the unit box the write of the deposition into the
  density buffer is always in bounds.  The constructor accepts 1626 cells and allocates
  \<open>1626\<^sup>3 mod 2\<^sup>3\<^sup>2 = 3975080\<close> cells for each buffer.  For the particle at
  \<open>(1/2, 0, 0)\<close> the cell indices are \<open>(813, 0, 0)\<close>, below 1626, and the flat index is
  \<open>2149471188\<close>, beyond the buffer: the write of the deposition is undefined, and so is
  the zeroing before it.
\<close>

theorem deposit_out_of_bounds_1626_cells:
  "Simulation_ctor 1 (1 / 100)
       \<lparr> mass = 1, particles = [\<lparr> position = (1 / 2, 0, 0), velocity = (0, 0, 0) \<rparr>] \<rparr>
       100 1626 1 = ([Large_grid], Inr sim1626) \<and>
   in_unit_box \<lparr> position = (1 / 2, 0, 0), velocity = (0, 0, 0) \<rparr> \<and>
   cell_coordinate (1 / 2) (number_of_cells sim1626) = Some 813 \<and>
   cell_coordinate 0 (number_of_cells sim1626) = Some 0 \<and>
   unat (flat_index (number_of_cells sim1626) 813 0 0) = 2149471188 \<and>
   length (density_buffer sim1626) = 3975080 \<and>
   deposit sim1626 \<lparr> position = (1 / 2, 0, 0), velocity = (0, 0, 0) \<rparr>
     (density_buffer sim1626) = None \<and>
   fill_density_buffer sim1626 = None"
proof -
  have n: "number_of_cells sim1626 = 1626" by (simp add: sim1626_def)
  have ctor: "Simulation_ctor 1 (1 / 100)
       \<lparr> mass = 1, particles = [\<lparr> position = (1 / 2, 0, 0), velocity = (0, 0, 0) \<rparr>] \<rparr>
       100 1626 1 = ([Large_grid], Inr sim1626)"
    by (simp add: Simulation_ctor_def INT_MAX_def sim1626_def Let_def)
  have box: "in_unit_box \<lparr> position = (1 / 2, 0, 0), velocity = (0, 0, 0) \<rparr>"
    by (simp add: in_unit_box_def in_unit_interval_def)
  have cc: "cell_coordinate (1 / 2) 1626 = Some 813" "cell_coordinate 0 1626 = Some 0"
    by (simp_all add: cell_coordinate_def)
  have fi: "unat (flat_index 1626 813 0 0) = 2149471188"
    by (simp add: flat_index_def)
  have len: "length (density_buffer sim1626) = 3975080" by (simp add: sim1626_def)
  have dep: "deposit sim1626 \<lparr> position = (1 / 2, 0, 0), velocity = (0, 0, 0) \<rparr>
     (density_buffer sim1626) = None"
    by (simp add: deposit_def n cc fi nth_opt_def len)
  have fill: "fill_density_buffer sim1626 = None"
    by (simp add: fill_density_buffer_def n memset_cells_1626 memset_zero_def len)
  show ?thesis using ctor box cc fi len dep fill by (simp add: n)
qed

section \<open>Construction: results\<close>

lemma Simulation_ctor_throws_iff:
  "(\<exists>e. snd (Simulation_ctor t_max t_step g W n a) = Inl e) \<longleftrightarrow>
     t_max \<le> 0 \<or> t_step \<le> 0 \<or> W \<le> 0 \<or> a \<le> 0 \<or> n > INT_MAX"
  by (simp add: Simulation_ctor_def Let_def)

lemma Simulation_ctor_warnings:
  assumes "0 < t_max" "0 < t_step" "0 < W" "0 < a" "n \<le> INT_MAX"
  shows "fst (Simulation_ctor t_max t_step g W n a) =
           (if a < 1 then [Contracting_universe] else []) @
           (if n > 400 then [Large_grid] else [])"
  using assms by (auto simp add: Simulation_ctor_def Let_def)

lemma cube_below:
  assumes "unat (n::u32) \<le> 1625"
  shows "unat n ^ 3 < 2 ^ 32"
proof -
  have "unat n ^ 3 \<le> 1625 ^ 3" using assms by (rule power_mono) simp
  then show ?thesis by simp
qed

lemma Simulation_ctor_invariant:
  assumes "snd (Simulation_ctor t_max t_step g W n a) = Inr s" and "n \<noteq> 0" and "unat n \<le> 1625"
  shows "mesh_invariant s" and "\<forall>c\<in>set (density_buffer s). snd c = 0"
    and "particle_collection s = g"
proof -
  have c: "unat n ^ 3 < 2 ^ 32" by (rule cube_below [OF assms(3)])
  have ts: "unat (n * n * n) = unat n ^ 3" by (rule total_size_unat [OF c assms(2)])
  have s: "s = \<lparr> time_max = t_max, time_step = t_step, particle_collection = g, box_width = W,
      number_of_cells = n, expansion_factor = a,
      density_buffer = replicate (unat (n * n * n)) (0, 0),
      potential_buffer = replicate (unat (n * n * n)) (0, 0),
      k_space_buffer = replicate (unat (n * n * n)) (0, 0) \<rparr>"
    and W: "0 < W"
    using assms(1) by (auto simp add: Simulation_ctor_def Let_def split: if_splits)
  show "mesh_invariant s" using W c assms(2) by (simp add: s mesh_invariant_def ts)
  show "\<forall>c\<in>set (density_buffer s). snd c = 0" by (simp add: s)
  show "particle_collection s = g" by (simp add: s)
qed

text \<open>
  C2.  The claim: construction fails for every invalid input, among them a cell count of
  0.  The constructor has no lower check on the cell count: with valid other arguments and
  0 cells it returns a simulation, with no warning, whose three buffers are empty, and on
  which the deposition of the first particle is undefined.
\<close>

theorem Simulation_ctor_accepts_zero_cells:
  "Simulation_ctor 1 1
     \<lparr> mass = 1, particles = [\<lparr> position = (1 / 2, 0, 0), velocity = (0, 0, 0) \<rparr>] \<rparr>
     1 0 1 = ([], Inr sim_no_cells) \<and>
   density_buffer sim_no_cells = [] \<and>
   fill_density_buffer sim_no_cells = None"
proof -
  have "cell_coordinate (1 / 2) 0 = Some 0" "cell_coordinate 0 0 = Some 0"
    by (simp_all add: cell_coordinate_def)
  then have "deposit sim_no_cells \<lparr> position = (1 / 2, 0, 0), velocity = (0, 0, 0) \<rparr> [] = None"
    by (simp add: deposit_def sim_no_cells_def nth_opt_def)
  then have "fill_density_buffer sim_no_cells = None"
    by (simp add: fill_density_buffer_def sim_no_cells_def memset_cells_def memset_zero_def)
  then show ?thesis
    by (simp add: Simulation_ctor_def INT_MAX_def sim_no_cells_def)
qed

end
